theory Spec2Isabelle
  imports Main "HOL-Library.Word" "HOL-Library.Finite_Map"
begin

text \<open>
  The tree engine of the TreeChat overlay (\<open>contents/overlay.tsx\<close>) and the pairing of
  \<open>contents/pageinfo.ts\<close>: pure functions of the source are HOL functions of the same
  name; a function that can throw returns \<open>None\<close> where it throws; the two recursive
  walks over children, which have no cycle guard in the source, take a bound on the depth
  of the recursion and return \<open>None\<close> when it is reached.
\<close>

section \<open>Strings\<close>

text \<open>
  Node ids are built by the program from ASCII pieces only (\<open>root\<close>, \<open>n_\<close>, decimal
  digits, hexadecimal digits) and are modelled as \<open>string\<close>. Page text, markup and
  summaries are arbitrary JavaScript strings: sequences of UTF-16 code units, which is
  what \<open>length\<close>, \<open>slice\<close>, \<open>trim\<close> and the regular expression \<open>\s\<close> work on.
\<close>

type_synonym text16 = "16 word list"

definition ascii :: "string \<Rightarrow> text16" where
  "ascii s = map of_char s"

text \<open>
  The code units matched by \<open>\s\<close> and stripped by \<open>trim\<close> (ECMAScript WhiteSpace and
  LineTerminator): TAB, LF, VT, FF, CR, SPACE, U+00A0, U+1680, U+2000..U+200A, U+2028,
  U+2029, U+202F, U+205F, U+3000, U+FEFF.
\<close>

definition is_ws :: "16 word \<Rightarrow> bool" where
  "is_ws c \<longleftrightarrow>
     c \<in> set [0x9, 0xA, 0xB, 0xC, 0xD, 0x20, 0xA0, 0x1680,
              0x2000, 0x2001, 0x2002, 0x2003, 0x2004, 0x2005, 0x2006, 0x2007, 0x2008,
              0x2009, 0x200A, 0x2028, 0x2029, 0x202F, 0x205F, 0x3000, 0xFEFF]"

definition space :: "16 word" where
  "space = 0x20"

definition ellipsis :: "16 word" where
  "ellipsis = 0x2026"

text \<open>\<open>s.replace(/\s+/g, " ")\<close>: every maximal run of white space becomes one space.\<close>

function replace_ws_runs :: "text16 \<Rightarrow> text16" where
  "replace_ws_runs [] = []"
| "replace_ws_runs (c # cs) =
     (if is_ws c then space # replace_ws_runs (dropWhile is_ws cs)
      else c # replace_ws_runs cs)"
  by pat_completeness auto
termination
  by (relation "measure length") (auto simp: le_imp_less_Suc length_dropWhile_le)

text \<open>\<open>s.trim()\<close>: white space is removed at both ends.\<close>

definition trim :: "text16 \<Rightarrow> text16" where
  "trim s = rev (dropWhile is_ws (rev (dropWhile is_ws s)))"

text \<open>Decimal rendering of a non-negative integer, as a template literal prints it.\<close>

definition digit_char :: "nat \<Rightarrow> char" where
  "digit_char d = ''0123456789'' ! d"

function show_nat :: "nat \<Rightarrow> string" where
  "show_nat n = (if n < 10 then [digit_char n] else show_nat (n div 10) @ [digit_char (n mod 10)])"
  by pat_completeness auto
termination
  by (relation "measure id") auto

declare show_nat.simps [simp del]

section \<open>Summaries\<close>

definition placeholder :: text16 where
  "placeholder = ascii ''(empty)''"

text \<open>\<open>makeSummaryFromUserText\<close> of overlay.tsx.\<close>

definition makeSummaryFromUserText :: "text16 \<Rightarrow> nat \<Rightarrow> text16" where
  "makeSummaryFromUserText userText mx =
     (let t = trim (replace_ws_runs userText)
      in if t = [] then placeholder
         else if length t \<le> mx then t else take mx t @ [ellipsis])"

text \<open>\<open>makeSummaryFromUserText\<close> of pageinfo.ts, with its two separate returns.\<close>

definition makeSummaryFromUserText_pageinfo :: "text16 \<Rightarrow> nat \<Rightarrow> text16" where
  "makeSummaryFromUserText_pageinfo userText mx =
     (let t = trim (replace_ws_runs userText)
      in if t = [] then placeholder
         else if length t \<le> mx then t
         else take mx t @ [ellipsis])"

section \<open>Messages and turn pairs\<close>

datatype role = User | Assistant

record Msg =
  role :: role
  msg_text :: text16
  html :: text16

record Pair =
  userText :: text16
  assistantText :: text16
  userHtml :: text16
  assistantHtml :: text16

text \<open>
  \<open>pairMessages\<close>: the loop state is the pending user message and the output so far.
\<close>

fun pairMessages_loop :: "Msg option \<Rightarrow> Pair list \<Rightarrow> Msg list \<Rightarrow> Pair list" where
  "pairMessages_loop pending out [] = out"
| "pairMessages_loop pending out (m # ms) =
     (if role m = User then pairMessages_loop (Some m) out ms
      else case pending of
             Some p \<Rightarrow>
               pairMessages_loop None
                 (out @ [\<lparr>userText = msg_text p, assistantText = msg_text m,
                          userHtml = html p, assistantHtml = html m\<rparr>]) ms
           | None \<Rightarrow> pairMessages_loop pending out ms)"

definition pairMessages :: "Msg list \<Rightarrow> Pair list" where
  "pairMessages msgs = pairMessages_loop None [] msgs"

text \<open>\<open>pairToLinearNodes\<close> of pageinfo.ts: the same loop, numbering its output.\<close>

record LinearNode =
  ln_id :: string
  ln_userText :: text16
  ln_userHtml :: text16
  ln_assistantText :: text16
  ln_assistantHtml :: text16
  ln_summary :: text16
  ln_linearIndex :: nat

fun pairToLinearNodes_loop ::
  "Msg option \<Rightarrow> nat \<Rightarrow> LinearNode list \<Rightarrow> Msg list \<Rightarrow> LinearNode list" where
  "pairToLinearNodes_loop pendingUser linearIndex nodes [] = nodes"
| "pairToLinearNodes_loop pendingUser linearIndex nodes (m # ms) =
     (if role m = User then pairToLinearNodes_loop (Some m) linearIndex nodes ms
      else case pendingUser of
             Some p \<Rightarrow>
               pairToLinearNodes_loop None (linearIndex + 1)
                 (nodes @ [\<lparr>ln_id = ''lin_'' @ show_nat linearIndex,
                            ln_userText = msg_text p, ln_userHtml = html p,
                            ln_assistantText = msg_text m, ln_assistantHtml = html m,
                            ln_summary = makeSummaryFromUserText_pageinfo (msg_text p) 20,
                            ln_linearIndex = linearIndex\<rparr>]) ms
           | None \<Rightarrow> pairToLinearNodes_loop pendingUser linearIndex nodes ms)"

definition pairToLinearNodes :: "Msg list \<Rightarrow> LinearNode list" where
  "pairToLinearNodes messages = pairToLinearNodes_loop None 0 [] messages"

section \<open>The turn tree\<close>

text \<open>
  \<open>depth\<close> and \<open>seenLinearCount\<close> are counts that the program only ever builds from
  \<open>0\<close> by adding one, or takes from a length; \<open>linearIndex\<close> is an integer because the
  root carries \<open>-1\<close>. The node table is an object indexed by id: a finite map.
  \<open>collapsedIds\<close> is optional, because the program reads it with \<open>?.\<close> and \<open>??\<close>
  throughout (snapshots of an older format do not have it). The fields \<open>id\<close>,
  \<open>userHtml\<close> and \<open>assistantHtml\<close> of a node are \<open>node_id\<close>, \<open>node_userHtml\<close> and
  \<open>node_assistantHtml\<close> here, and the field \<open>text\<close> of a message is \<open>msg_text\<close>.
\<close>

record TreeNode =
  node_id :: string
  parentId :: string
  children :: "string list"
  depth :: nat
  linearIndex :: int
  summary :: text16
  node_userHtml :: text16
  node_assistantHtml :: text16

record TreeState =
  convoKey :: string
  seenLinearCount :: nat
  activeId :: string
  nodes :: "(string, TreeNode) fmap"
  collapsedIds :: "(string, bool) fmap option"

definition ROOT_ID :: string where
  "ROOT_ID = ''root''"

definition root_node :: TreeNode where
  "root_node = \<lparr>node_id = ROOT_ID, parentId = ROOT_ID, children = [], depth = 0,
                 linearIndex = -1, summary = ascii ''Root'',
                 node_userHtml = [], node_assistantHtml = []\<rparr>"

definition freshTree :: "string \<Rightarrow> TreeState" where
  "freshTree key = \<lparr>convoKey = key, seenLinearCount = 0, activeId = ROOT_ID,
                     nodes = fmupd ROOT_ID root_node fmempty,
                     collapsedIds = Some fmempty\<rparr>"

text \<open>\<open>st.collapsedIds ?? {}\<close> and the truthiness of \<open>st.collapsedIds?.[id]\<close>.\<close>

definition collapsed_or_empty :: "TreeState \<Rightarrow> (string, bool) fmap" where
  "collapsed_or_empty st = (case collapsedIds st of None \<Rightarrow> fmempty | Some c \<Rightarrow> c)"

definition is_collapsed :: "TreeState \<Rightarrow> string \<Rightarrow> bool" where
  "is_collapsed st i \<longleftrightarrow> fmlookup (collapsed_or_empty st) i = Some True"

text \<open>
  Reading the table with an id that comes from outside it. The table is a plain object,
  so \<open>st.nodes[id]\<close> finds the entry stored under \<open>id\<close>, or else what every object
  inherits from \<open>Object.prototype\<close> under the names listed below, or else nothing
  (\<open>undefined\<close>). An inherited value is a function (the prototype object for
  \<open>__proto__\<close>): it is truthy, it is not nullish, and it has none of the fields of a node,
  so \<open>id\<close>, \<open>parentId\<close> and \<open>children\<close> read as \<open>undefined\<close> on it.
\<close>

definition inherited_names :: "string list" where
  "inherited_names =
     [''constructor'', ''hasOwnProperty'', ''isPrototypeOf'', ''propertyIsEnumerable'',
      ''toLocaleString'', ''toString'', ''valueOf'', ''__proto__'',
      ''__defineGetter__'', ''__defineSetter__'', ''__lookupGetter__'', ''__lookupSetter__'']"

datatype 'a looked_up = Own 'a | Inherited | Absent

definition table_get :: "(string, 'a) fmap \<Rightarrow> string \<Rightarrow> 'a looked_up" where
  "table_get t i =
     (case fmlookup t i of
        Some v \<Rightarrow> Own v
      | None \<Rightarrow> if i \<in> set inherited_names then Inherited else Absent)"

text \<open>
  \<open>appendUnderActive\<close>. The hexadecimal tail that \<open>Math.random\<close> contributes to the new id
  is the parameter \<open>rnd\<close>. \<open>active_parent\<close> is the node that
  \<open>st.nodes[st.activeId] ?? st.nodes[ROOT_ID]\<close> gives to append under, and \<open>None\<close> where
  the call throws instead: when the active id is no key of the table but an inherited
  name, \<open>??\<close> keeps the inherited value and \<open>[...parent.children, id]\<close> throws, having
  nothing to spread; when neither the active id nor the root resolves, \<open>parent\<close> is
  undefined and reading \<open>parent.id\<close> throws.
\<close>

definition new_id :: "nat \<Rightarrow> string \<Rightarrow> string" where
  "new_id idx rnd = ''n_'' @ show_nat idx @ ''_'' @ rnd"

definition active_parent :: "TreeState \<Rightarrow> TreeNode option" where
  "active_parent st =
     (case table_get (nodes st) (activeId st) of
        Own p \<Rightarrow> Some p
      | Inherited \<Rightarrow> None
      | Absent \<Rightarrow> fmlookup (nodes st) ROOT_ID)"

definition appendUnderActive :: "TreeState \<Rightarrow> Pair \<Rightarrow> nat \<Rightarrow> string \<Rightarrow> TreeState option" where
  "appendUnderActive st pair idx rnd =
     (case active_parent st of
        None \<Rightarrow> None
      | Some parent \<Rightarrow>
          let i = new_id idx rnd;
              node = \<lparr>node_id = i, parentId = node_id parent, children = [],
                      depth = depth parent + 1, linearIndex = int idx,
                      summary = makeSummaryFromUserText (userText pair) 20,
                      node_userHtml = userHtml pair,
                      node_assistantHtml = assistantHtml pair\<rparr>
          in Some (st\<lparr>activeId := i, seenLinearCount := idx + 1,
                      nodes := fmupd (node_id parent)
                                 (parent\<lparr>children := children parent @ [i]\<rparr>)
                                 (fmupd i node (nodes st))\<rparr>))"

text \<open>
  The tree update of \<open>refresh\<close> for the conversation that is open: nothing when the
  page shows no more pairs than were already seen, else \<open>appendUnderActive\<close> for every
  index from \<open>seenLinearCount\<close> up. The delayed retry of \<open>refresh\<close> runs the same loop on
  the pairs it reads then. \<open>rnd i\<close> is the random tail drawn in the call for index \<open>i\<close>.
\<close>

function reconcile_loop ::
  "(nat \<Rightarrow> string) \<Rightarrow> Pair list \<Rightarrow> nat \<Rightarrow> TreeState \<Rightarrow> TreeState option" where
  "reconcile_loop rnd pairs i nxt =
     (if i < length pairs
      then case appendUnderActive nxt (pairs ! i) i (rnd i) of
             None \<Rightarrow> None
           | Some nxt' \<Rightarrow> reconcile_loop rnd pairs (i + 1) nxt'
      else Some nxt)"
  by pat_completeness auto
termination
  by (relation "measure (\<lambda>(rnd, pairs, i, nxt). length pairs - i)") auto

declare reconcile_loop.simps [simp del]

definition reconcile :: "(nat \<Rightarrow> string) \<Rightarrow> TreeState \<Rightarrow> Pair list \<Rightarrow> TreeState option" where
  "reconcile rnd st pairs =
     (if length pairs \<le> seenLinearCount st then Some st
      else reconcile_loop rnd pairs (seenLinearCount st) st)"

text \<open>
  The loops that walk upward carry a set of visited ids; each round adds an id of the
  (finite) table that was not visited before.
\<close>

lemma guard_measure:
  assumes "fmlookup m k = Some v" and "k \<notin> set g"
  shows "card (fmdom' m - insert k (set g)) < card (fmdom' m - set g)"
proof -
  have "k \<in> fmdom' m" using assms(1) by (rule fmdom'I)
  then have "fmdom' m - insert k (set g) \<subset> fmdom' m - set g"
    using assms(2) by auto
  moreover have "finite (fmdom' m - set g)"
    by (simp add: fmdom'_alt_def)
  ultimately show ?thesis by (rule psubset_card_mono [rotated])
qed

text \<open>
  \<open>pathToRoot\<close>: the walk upward stops at the empty id, at the root, at an id already
  visited, and at an id that is not in the table.
\<close>

function pathToRoot_loop ::
  "TreeState \<Rightarrow> string list \<Rightarrow> TreeNode list \<Rightarrow> string \<Rightarrow> TreeNode list" where
  "pathToRoot_loop st guard out curId =
     (if curId \<noteq> [] \<and> curId \<noteq> ROOT_ID \<and> curId \<notin> set guard
      then case fmlookup (nodes st) curId of
             None \<Rightarrow> out
           | Some cur \<Rightarrow> pathToRoot_loop st (curId # guard) (out @ [cur]) (parentId cur)
      else out)"
  by pat_completeness auto
termination
  by (relation "measure (\<lambda>(st, guard, out, curId). card (fmdom' (nodes st) - set guard))")
     (auto intro: guard_measure)

declare pathToRoot_loop.simps [simp del]

definition pathToRoot :: "TreeState \<Rightarrow> TreeNode list" where
  "pathToRoot st = rev (pathToRoot_loop st [] [] (activeId st))"

text \<open>
  \<open>flattenTree\<close>: the recursive \<open>dfs\<close> has no cycle guard, so it need not return; the
  first argument bounds the depth of the recursion and \<open>None\<close> means the bound was hit.
\<close>

primrec flatten_dfs :: "nat \<Rightarrow> TreeState \<Rightarrow> string \<Rightarrow> TreeNode list option" where
  "flatten_dfs 0 st i = None"
| "flatten_dfs (Suc fuel) st i =
     (case fmlookup (nodes st) i of
        None \<Rightarrow> Some []
      | Some n \<Rightarrow>
          map_option (\<lambda>rs. (if i \<noteq> ROOT_ID then [n] else []) @ concat rs)
            (those (map (flatten_dfs fuel st) (children n))))"

definition flattenTree :: "nat \<Rightarrow> TreeState \<Rightarrow> TreeNode list option" where
  "flattenTree fuel st = flatten_dfs fuel st ROOT_ID"

text \<open>
  \<open>buildAlignedLinearTreeFromPairs\<close>. The loop writes the new node, then re-reads the
  entry of \<open>parentId\<close> to extend its children; reading \<open>.children\<close> of a missing entry
  would throw, which is the \<open>None\<close> branch.
\<close>

definition align_id :: "nat \<Rightarrow> string" where
  "align_id i = ''n_align_'' @ show_nat i"

function align_loop ::
  "Pair list \<Rightarrow> nat \<Rightarrow> (string, TreeNode) fmap \<Rightarrow> string \<Rightarrow> (string, TreeNode) fmap option" where
  "align_loop pairs i ns pId =
     (if i < length pairs
      then let new = align_id i;
               parent = fmlookup ns pId;
               ns1 = fmupd new
                       \<lparr>node_id = new, parentId = pId, children = [],
                        depth = (case parent of Some p \<Rightarrow> depth p | None \<Rightarrow> 0) + 1,
                        linearIndex = int i,
                        summary = makeSummaryFromUserText (userText (pairs ! i)) 20,
                        node_userHtml = [], node_assistantHtml = []\<rparr> ns
           in case fmlookup ns1 pId of
                None \<Rightarrow> None
              | Some p \<Rightarrow>
                  align_loop pairs (i + 1)
                    (fmupd pId (p\<lparr>children := children p @ [new]\<rparr>) ns1) new
      else Some ns)"
  by pat_completeness auto
termination
  by (relation "measure (\<lambda>(pairs, i, ns, pId). length pairs - i)") auto

declare align_loop.simps [simp del]

definition buildAlignedLinearTreeFromPairs :: "string \<Rightarrow> Pair list \<Rightarrow> TreeState option" where
  "buildAlignedLinearTreeFromPairs key pairs =
     (case align_loop pairs 0 (fmupd ROOT_ID root_node fmempty) ROOT_ID of
        None \<Rightarrow> None
      | Some ns \<Rightarrow>
          Some \<lparr>convoKey = key, seenLinearCount = length pairs,
                activeId = (if length pairs > 0 then align_id (length pairs - 1) else ROOT_ID),
                nodes = ns, collapsedIds = Some fmempty\<rparr>)"

text \<open>\<open>isHiddenByCollapsed\<close>: looks at the parent of every node on the way up.\<close>

function isHidden_loop :: "TreeState \<Rightarrow> string list \<Rightarrow> string \<Rightarrow> bool" where
  "isHidden_loop st guard curId =
     (if curId \<noteq> [] \<and> curId \<noteq> ROOT_ID \<and> curId \<notin> set guard
      then case fmlookup (nodes st) curId of
             None \<Rightarrow> False
           | Some cur \<Rightarrow>
               if parentId cur \<noteq> [] \<and> is_collapsed st (parentId cur) then True
               else isHidden_loop st (curId # guard) (parentId cur)
      else False)"
  by pat_completeness auto
termination
  by (relation "measure (\<lambda>(st, guard, curId). card (fmdom' (nodes st) - set guard))")
     (auto intro: guard_measure)

declare isHidden_loop.simps [simp del]

definition isHiddenByCollapsed :: "TreeState \<Rightarrow> string \<Rightarrow> bool" where
  "isHiddenByCollapsed st nodeId = isHidden_loop st [] nodeId"

text \<open>The listing the panel shows: \<open>flattenTree\<close> without the hidden nodes.\<close>

definition flatNodes :: "nat \<Rightarrow> TreeState \<Rightarrow> TreeNode list option" where
  "flatNodes fuel st =
     map_option (filter (\<lambda>n. \<not> isHiddenByCollapsed st (node_id n))) (flattenTree fuel st)"

text \<open>
  \<open>collectSubtreeIds\<close>: as \<open>flattenTree\<close>, a recursion without cycle guard, bounded here
  by its depth. An id that reads an inherited value passes \<open>if (!n) return\<close> and is
  collected; the value has no \<open>children\<close>, so the walk goes no further.
\<close>

primrec collect_dfs :: "nat \<Rightarrow> TreeState \<Rightarrow> string \<Rightarrow> string list option" where
  "collect_dfs 0 st i = None"
| "collect_dfs (Suc fuel) st i =
     (case table_get (nodes st) i of
        Absent \<Rightarrow> Some []
      | Inherited \<Rightarrow> Some [i]
      | Own n \<Rightarrow>
          map_option (\<lambda>rs. i # concat rs) (those (map (collect_dfs fuel st) (children n))))"

definition collectSubtreeIds :: "nat \<Rightarrow> TreeState \<Rightarrow> string \<Rightarrow> string list option" where
  "collectSubtreeIds fuel st rootId = collect_dfs fuel st rootId"

text \<open>
  \<open>deleteSubtree\<close>; \<open>None\<close> only when \<open>collectSubtreeIds\<close> does not return. The guard
  \<open>if (!st.nodes[targetId]) return st\<close> lets a target pass that is no key of the table
  but an inherited name. \<open>target.parentId\<close> is then \<open>undefined\<close>, which every later use
  turns into the property key \<open>undefined\<close>: it is that string here. The parent id of a
  stored target is read as a key of the table.
\<close>

definition deleteSubtree :: "nat \<Rightarrow> TreeState \<Rightarrow> string \<Rightarrow> TreeState option" where
  "deleteSubtree fuel st targetId =
     (if table_get (nodes st) targetId = Absent then Some st
      else if targetId = ROOT_ID then Some st
      else case collectSubtreeIds fuel st targetId of
             None \<Rightarrow> None
           | Some ids \<Rightarrow>
               let pId = (case table_get (nodes st) targetId of
                            Own target \<Rightarrow> parentId target
                          | _ \<Rightarrow> ''undefined'');
                   toDelete = set ids;
                   dropped = fmdrop_set toDelete (nodes st);
                   nextNodes =
                     (case (fmlookup (nodes st) pId, fmlookup dropped pId) of
                        (Some parent, Some _) \<Rightarrow>
                          fmupd pId
                            (parent\<lparr>children := filter (\<lambda>c. c \<noteq> targetId) (children parent)\<rparr>)
                            dropped
                      | _ \<Rightarrow> dropped);
                   nextCollapsed = fmdrop_set toDelete (collapsed_or_empty st);
                   nextActiveId = (if fmlookup nextNodes pId \<noteq> None then pId else ROOT_ID)
               in Some (st\<lparr>activeId := nextActiveId, nodes := nextNodes,
                           collapsedIds := Some nextCollapsed\<rparr>))"

text \<open>\<open>toggleCollapseNode\<close> and \<open>expandAllNodes\<close>.\<close>

definition toggleCollapseNode :: "TreeState \<Rightarrow> string \<Rightarrow> TreeState" where
  "toggleCollapseNode st i =
     (let cur = is_collapsed st i
      in st\<lparr>collapsedIds := Some (fmupd i (\<not> cur) (collapsed_or_empty st))\<rparr>)"

definition expandAllNodes :: "TreeState \<Rightarrow> TreeState" where
  "expandAllNodes st = st\<lparr>collapsedIds := Some fmempty\<rparr>"

text \<open>
  \<open>collapseAllOtherNodes\<close>. The walk upward records every id it visits, also one that is
  not in the table (then \<open>cur\<close> becomes undefined, \<open>None\<close> here, and the walk ends).
\<close>

function up_loop ::
  "(string, TreeNode) fmap \<Rightarrow> string list \<Rightarrow> string list \<Rightarrow> string option \<Rightarrow> string list" where
  "up_loop ns guard up cur =
     (case cur of
        None \<Rightarrow> up
      | Some c \<Rightarrow>
          if c \<noteq> [] \<and> c \<noteq> ROOT_ID \<and> c \<notin> set guard
          then up_loop ns (c # guard) (up @ [c]) (map_option parentId (fmlookup ns c))
          else up)"
  by pat_completeness auto
termination
proof (relation "measure (\<lambda>(ns, guard, up, cur).
          2 * card (fmdom' ns - set guard) + (if cur = None then 0 else 1))")
  show "wf (measure (\<lambda>(ns, guard, up, cur).
          2 * card (fmdom' ns - set guard) + (if cur = None then 0 else 1)))"
    by simp
next
  fix ns :: "(string, TreeNode) fmap" and guard up :: "string list"
    and cur :: "string option" and c :: string
  assume cur: "cur = Some c" and go: "c \<noteq> [] \<and> c \<noteq> ROOT_ID \<and> c \<notin> set guard"
  show "((ns, c # guard, up @ [c], map_option parentId (fmlookup ns c)), (ns, guard, up, cur))
      \<in> measure (\<lambda>(ns, guard, up, cur).
          2 * card (fmdom' ns - set guard) + (if cur = None then 0 else 1))"
  proof (cases "fmlookup ns c")
    case None
    then have "fmdom' ns - set (c # guard) = fmdom' ns - set guard"
      by (auto dest: fmdom'_notI)
    with None cur show ?thesis by simp
  next
    case (Some n)
    from guard_measure [OF Some] go
    have "card (fmdom' ns - insert c (set guard)) < card (fmdom' ns - set guard)"
      by simp
    with Some cur show ?thesis by simp
  qed
qed

declare up_loop.simps [simp del]

definition mark_children ::
  "(string \<Rightarrow> bool) \<Rightarrow> string list \<Rightarrow> (string, bool) fmap \<Rightarrow> (string, bool) fmap" where
  "mark_children P cs m = fold (\<lambda>c acc. if P c then fmupd c True acc else acc) cs m"

function collapse_path_loop ::
  "(string, TreeNode) fmap \<Rightarrow> string list \<Rightarrow> nat \<Rightarrow> (string, bool) fmap \<Rightarrow> (string, bool) fmap" where
  "collapse_path_loop ns path i m =
     (if i + 1 < length path
      then let childOnPath = path ! (i + 1)
           in collapse_path_loop ns path (i + 1)
                (case fmlookup ns (path ! i) of
                   None \<Rightarrow> m
                 | Some parent \<Rightarrow>
                     if children parent = [] then m
                     else mark_children (\<lambda>c. c \<noteq> childOnPath) (children parent) m)
      else m)"
  by pat_completeness auto
termination
  by (relation "measure (\<lambda>(ns, path, i, m). length path - i)") auto

declare collapse_path_loop.simps [simp del]

definition collapseAllOtherNodes :: "TreeState \<Rightarrow> TreeState" where
  "collapseAllOtherNodes prev =
     (let up = up_loop (nodes prev) [] [] (Some (activeId prev));
          path = ROOT_ID # rev up;
          sibs = collapse_path_loop (nodes prev) path 0 fmempty;
          withActive =
            (case fmlookup (nodes prev) (activeId prev) of
               None \<Rightarrow> sibs
             | Some active \<Rightarrow> mark_children (\<lambda>c. True) (children active) sibs);
          nextCollapsed = fmdrop (activeId prev) (fmdrop ROOT_ID withActive)
      in prev\<lparr>collapsedIds := Some nextCollapsed\<rparr>)"

section \<open>Persistence\<close>

text \<open>
  \<open>stripTreeForPersist\<close> rebuilds every node with empty markup. \<open>saveTree\<close> and
  \<open>loadTree\<close> go through the browser's \<open>localStorage\<close>, \<open>JSON.stringify\<close> and \<open>JSON.parse\<close>,
  which are not part of the program: the store is a finite map from keys to stored text,
  the two JSON functions are parameters (\<open>parse\<close> gives \<open>None\<close> where \<open>JSON.parse\<close> throws
  or yields a falsy value), and \<open>quota_exceeded\<close> says that \<open>setItem\<close> throws, which
  \<open>saveTree\<close> catches and ignores.
\<close>

definition STORAGE_PREFIX :: string where
  "STORAGE_PREFIX = ''treechat:v3:''"

definition storageKey :: "string \<Rightarrow> string" where
  "storageKey key = STORAGE_PREFIX @ key"

definition safeJsonParse :: "(text16 \<Rightarrow> 'a option) \<Rightarrow> text16 option \<Rightarrow> 'a option" where
  "safeJsonParse parse s =
     (case s of None \<Rightarrow> None | Some t \<Rightarrow> if t = [] then None else parse t)"

definition loadTree ::
  "(text16 \<Rightarrow> TreeState option) \<Rightarrow> (string, text16) fmap \<Rightarrow> string \<Rightarrow> TreeState option" where
  "loadTree parse ls key =
     (case safeJsonParse parse (fmlookup ls (storageKey key)) of
        None \<Rightarrow> None
      | Some st \<Rightarrow>
          Some (if collapsedIds st = None then st\<lparr>collapsedIds := Some fmempty\<rparr> else st))"

definition strip_node :: "TreeNode \<Rightarrow> TreeNode" where
  "strip_node n = \<lparr>node_id = node_id n, parentId = parentId n, children = children n,
                   depth = depth n, linearIndex = linearIndex n, summary = summary n,
                   node_userHtml = [], node_assistantHtml = []\<rparr>"

definition stripTreeForPersist :: "TreeState \<Rightarrow> TreeState" where
  "stripTreeForPersist st =
     \<lparr>convoKey = convoKey st, seenLinearCount = seenLinearCount st, activeId = activeId st,
      nodes = fmmap strip_node (nodes st), collapsedIds = Some (collapsed_or_empty st)\<rparr>"

definition saveTree ::
  "(TreeState \<Rightarrow> text16) \<Rightarrow> bool \<Rightarrow> (string, text16) fmap \<Rightarrow> TreeState \<Rightarrow> (string, text16) fmap" where
  "saveTree stringify quota_exceeded ls st =
     (if quota_exceeded then ls else fmupd (storageKey (convoKey st)) (stringify st) ls)"

section \<open>Notions used to state the properties\<close>

text \<open>
  An exchange is complete when a user message is directly followed by an assistant
  message. \<open>pair_of\<close> is the pair the program builds from the two messages.
\<close>

definition complete_exchanges :: "Msg list \<Rightarrow> (Msg \<times> Msg) list" where
  "complete_exchanges msgs =
     filter (\<lambda>(u, a). role u = User \<and> role a = Assistant) (zip msgs (tl msgs))"

definition pair_of :: "Msg \<times> Msg \<Rightarrow> Pair" where
  "pair_of ua = \<lparr>userText = msg_text (fst ua), assistantText = msg_text (snd ua),
                 userHtml = html (fst ua), assistantHtml = html (snd ua)\<rparr>"

definition pair_of_linear :: "LinearNode \<Rightarrow> Pair" where
  "pair_of_linear n = \<lparr>userText = ln_userText n, assistantText = ln_assistantText n,
                       userHtml = ln_userHtml n, assistantHtml = ln_assistantHtml n\<rparr>"

text \<open>
  Well-formed trees: the invariants of the data model. The root is present at depth 0,
  no node has the empty id, every node is stored under its own id, every node other than
  the root has its parent in the table, is listed among that parent's children and lies
  one level deeper, and every listed child is a node other than the root whose parent
  is the node that lists it.
\<close>

definition wf_tree :: "TreeState \<Rightarrow> bool" where
  "wf_tree st \<longleftrightarrow>
     (\<exists>r. fmlookup (nodes st) ROOT_ID = Some r \<and> depth r = 0)
   \<and> fmlookup (nodes st) [] = None
   \<and> (\<forall>k n. fmlookup (nodes st) k = Some n \<longrightarrow> node_id n = k)
   \<and> (\<forall>k n. fmlookup (nodes st) k = Some n \<longrightarrow> k \<noteq> ROOT_ID \<longrightarrow>
         (\<exists>p. fmlookup (nodes st) (parentId n) = Some p \<and> k \<in> set (children p)
              \<and> depth n = depth p + 1))
   \<and> (\<forall>k n c. fmlookup (nodes st) k = Some n \<longrightarrow> c \<in> set (children n) \<longrightarrow>
         c \<noteq> ROOT_ID \<and> (\<exists>m. fmlookup (nodes st) c = Some m \<and> parentId m = k))"

definition ids_match :: "TreeState \<Rightarrow> bool" where
  "ids_match st \<longleftrightarrow> (\<forall>k n. fmlookup (nodes st) k = Some n \<longrightarrow> node_id n = k)"

text \<open>The greatest depth stored in the table; recursion bounds above it are enough.\<close>

definition max_depth :: "TreeState \<Rightarrow> nat" where
  "max_depth st = Max (depth ` fmran' (nodes st))"

text \<open>
  A small state used as an example: the root with two children, the second one active.
\<close>

definition leaf :: "string \<Rightarrow> string \<Rightarrow> nat \<Rightarrow> int \<Rightarrow> string list \<Rightarrow> TreeNode" where
  "leaf i p d l cs = \<lparr>node_id = i, parentId = p, children = cs, depth = d, linearIndex = l,
     summary = [], node_userHtml = [], node_assistantHtml = []\<rparr>"

definition two_branches :: TreeState where
  "two_branches = \<lparr>convoKey = ''c_1'', seenLinearCount = 2, activeId = ''n_1_b'',
     nodes = fmupd ROOT_ID (root_node\<lparr>children := [''n_0_a'', ''n_1_b'']\<rparr>)
              (fmupd ''n_0_a'' (leaf ''n_0_a'' ROOT_ID 1 0 [])
              (fmupd ''n_1_b'' (leaf ''n_1_b'' ROOT_ID 1 1 []) fmempty)),
     collapsedIds = Some fmempty\<rparr>"

text \<open>The same state with an active id that is no key of its table: an inherited name.\<close>

definition inherited_active :: TreeState where
  "inherited_active = two_branches\<lparr>activeId := ''constructor''\<rparr>"

definition example_pair :: Pair where
  "example_pair = \<lparr>userText = ascii ''hello'', assistantText = ascii ''hi'',
                    userHtml = ascii ''<p>hello</p>'', assistantHtml = ascii ''<p>hi</p>''\<rparr>"

text \<open>
  The tree the aligner is to build for \<open>n\<close> pairs: the root lists node \<open>0\<close> as its only
  child, node \<open>i\<close> has node \<open>i - 1\<close> (the root for \<open>i = 0\<close>) as parent and node \<open>i + 1\<close>,
  if there is one, as its only child. \<open>aligned_table\<close> says that a table holds exactly
  these nodes under exactly these ids.
\<close>

definition aligned_root :: "nat \<Rightarrow> TreeNode" where
  "aligned_root n = root_node\<lparr>children := (if n = 0 then [] else [align_id 0])\<rparr>"

definition aligned_node :: "Pair list \<Rightarrow> nat \<Rightarrow> nat \<Rightarrow> TreeNode" where
  "aligned_node pairs n i =
     \<lparr>node_id = align_id i,
      parentId = (if i = 0 then ROOT_ID else align_id (i - 1)),
      children = (if i + 1 < n then [align_id (i + 1)] else []),
      depth = i + 1, linearIndex = int i,
      summary = makeSummaryFromUserText (userText (pairs ! i)) 20,
      node_userHtml = [], node_assistantHtml = []\<rparr>"

definition last_aligned :: "nat \<Rightarrow> string" where
  "last_aligned n = (if n = 0 then ROOT_ID else align_id (n - 1))"

definition aligned_table :: "Pair list \<Rightarrow> nat \<Rightarrow> (string, TreeNode) fmap \<Rightarrow> bool" where
  "aligned_table pairs n ns \<longleftrightarrow>
     fmdom' ns = set (ROOT_ID # map align_id [0 ..< n])
   \<and> fmlookup ns ROOT_ID = Some (aligned_root n)
   \<and> map (\<lambda>i. fmlookup ns (align_id i)) [0 ..< n]
       = map (\<lambda>i. Some (aligned_node pairs n i)) [0 ..< n]"

text \<open>
  The node that reconciling is to append for index \<open>i\<close>, when the appending starts at
  index \<open>s\<close> under the node \<open>p\<close>: a child of \<open>p\<close> for \<open>i = s\<close>, else of the node appended
  just before, with the next appended node, if there is one, as its only child.
  \<open>fresh_ids\<close> says that the ids drawn for the indices from \<open>s\<close> up to \<open>n\<close> are not in
  the table yet.
\<close>

definition appended_node ::
  "(nat \<Rightarrow> string) \<Rightarrow> Pair list \<Rightarrow> TreeNode \<Rightarrow> nat \<Rightarrow> nat \<Rightarrow> TreeNode" where
  "appended_node rnd pairs p s i =
     \<lparr>node_id = new_id i (rnd i),
      parentId = (if i = s then node_id p else new_id (i - 1) (rnd (i - 1))),
      children = (if i + 1 < length pairs then [new_id (i + 1) (rnd (i + 1))] else []),
      depth = depth p + (i - s) + 1, linearIndex = int i,
      summary = makeSummaryFromUserText (userText (pairs ! i)) 20,
      node_userHtml = userHtml (pairs ! i),
      node_assistantHtml = assistantHtml (pairs ! i)\<rparr>"

definition fresh_ids :: "(nat \<Rightarrow> string) \<Rightarrow> TreeState \<Rightarrow> nat \<Rightarrow> nat \<Rightarrow> bool" where
  "fresh_ids rnd st s n \<longleftrightarrow>
     (\<forall>i. s \<le> i \<and> i < n \<longrightarrow> fmlookup (nodes st) (new_id i (rnd i)) = None)"

text \<open>
  What is assumed of the platform's JSON functions at a snapshot \<open>x\<close>: the text written
  for \<open>x\<close> is not empty and parses back to \<open>x\<close>.
\<close>

definition json_round_trips ::
  "(text16 \<Rightarrow> TreeState option) \<Rightarrow> (TreeState \<Rightarrow> text16) \<Rightarrow> TreeState \<Rightarrow> bool" where
  "json_round_trips parse stringify x \<longleftrightarrow> stringify x \<noteq> [] \<and> parse (stringify x) = Some x"

text \<open>
  The ids met when walking upward from \<open>c\<close>, the root excluded, for a node at depth \<open>d\<close>;
  the ids of the path from the root to the active node, the root included; and the guard
  sets that cannot stop a walk that starts at depth \<open>d\<close>.
\<close>

fun anc_chain :: "nat \<Rightarrow> (string, TreeNode) fmap \<Rightarrow> string \<Rightarrow> string list" where
  "anc_chain 0 ns c = []"
| "anc_chain (Suc d) ns c =
     (if c = ROOT_ID then []
      else c # (case fmlookup ns c of None \<Rightarrow> [] | Some n \<Rightarrow> anc_chain d ns (parentId n)))"

definition path_ids :: "TreeState \<Rightarrow> string list" where
  "path_ids st = ROOT_ID # map node_id (pathToRoot st)"

definition deeper_than :: "TreeState \<Rightarrow> nat \<Rightarrow> string list \<Rightarrow> bool" where
  "deeper_than st d g \<longleftrightarrow> (\<forall>z\<in>set g. \<exists>m. fmlookup (nodes st) z = Some m \<and> d < depth m)"

section \<open>Verified properties\<close>

subsection \<open>Pairing\<close>

lemma role_cases: "role m \<noteq> User \<longleftrightarrow> role m = Assistant"
  by (cases "role m") simp_all

lemma complete_exchanges_Cons_Cons:
  "complete_exchanges (u # a # ms) =
     (if role u = User \<and> role a = Assistant then [(u, a)] else []) @ complete_exchanges (a # ms)"
  by (simp add: complete_exchanges_def)

lemma complete_exchanges_single [simp]: "complete_exchanges [m] = []" "complete_exchanges [] = []"
  by (simp_all add: complete_exchanges_def)

lemma complete_exchanges_assistant_first:
  "role a = Assistant \<Longrightarrow> complete_exchanges (a # ms) = complete_exchanges ms"
  by (cases ms) (simp_all add: complete_exchanges_def)

lemma pairMessages_loop_exchanges:
  "pairMessages_loop None out ms = out @ map pair_of (complete_exchanges ms)"
  "role p = User \<Longrightarrow>
     pairMessages_loop (Some p) out ms = out @ map pair_of (complete_exchanges (p # ms))"
proof (induction ms arbitrary: p out)
  case Nil
  { case 1 show ?case by simp }
  { case 2 show ?case by simp }
next
  case (Cons m ms)
  { case 1
    show ?case
    proof (cases "role m")
      case User
      then show ?thesis using Cons.IH(2) [of m out] by simp
    next
      case Assistant
      then show ?thesis
        using Cons.IH(1) [of out] by (simp add: complete_exchanges_assistant_first)
    qed }
  { case 2
    show ?case
    proof (cases "role m")
      case User
      then show ?thesis
        using Cons.IH(2) [of m out] 2 by (simp add: complete_exchanges_Cons_Cons)
    next
      case Assistant
      then show ?thesis
        using Cons.IH(1) [of "out @ [pair_of (p, m)]"] 2
        by (simp add: complete_exchanges_Cons_Cons complete_exchanges_assistant_first pair_of_def)
    qed }
qed

lemma pairMessages_loop_trailing_user:
  "role u = User \<Longrightarrow> pairMessages_loop pending out (ms @ [u]) = pairMessages_loop pending out ms"
  by (induction ms arbitrary: pending out) (simp_all split: option.splits)

lemma pairMessages_loop_assistant_twice:
  "role a = Assistant \<Longrightarrow> role b = Assistant \<Longrightarrow>
   pairMessages_loop pending out (ms @ [a, b]) = pairMessages_loop pending out (ms @ [a])"
  by (induction ms arbitrary: pending out) (simp_all split: option.splits)

lemma pairMessages_loop_assistant_bound:
  "length (pairMessages_loop pending out ms)
     \<le> length out + length (filter (\<lambda>m. role m = Assistant) ms)"
proof (induction ms arbitrary: pending out)
  case Nil
  show ?case by simp
next
  case (Cons m ms)
  show ?case
  proof (cases "role m")
    case User
    then show ?thesis using Cons.IH [of "Some m" out] by simp
  next
    case Assistant
    show ?thesis
    proof (cases pending)
      case None
      then show ?thesis using Assistant Cons.IH [of None out] by simp
    next
      case (Some p)
      then show ?thesis
        using Assistant Cons.IH [of None "out @ [pair_of (p, m)]"] by (simp add: pair_of_def)
    qed
  qed
qed

lemma pairMessages_loop_user_bound:
  "length (pairMessages_loop pending out ms)
     \<le> length out + (if pending = None then 0 else 1) + length (filter (\<lambda>m. role m = User) ms)"
proof (induction ms arbitrary: pending out)
  case Nil
  show ?case by simp
next
  case (Cons m ms)
  show ?case
  proof (cases "role m")
    case User
    then show ?thesis using Cons.IH [of "Some m" out] by simp
  next
    case Assistant
    show ?thesis
    proof (cases pending)
      case None
      then show ?thesis using Assistant Cons.IH [of None out] by simp
    next
      case (Some p)
      then show ?thesis
        using Assistant Cons.IH [of None "out @ [pair_of (p, m)]"] by (simp add: pair_of_def)
    qed
  qed
qed

lemma pairToLinearNodes_loop_pairs:
  "map pair_of_linear (pairToLinearNodes_loop pending k acc ms)
     = pairMessages_loop pending (map pair_of_linear acc) ms"
  by (induction ms arbitrary: pending k acc)
     (simp_all add: pair_of_linear_def split: option.splits)

lemma pairToLinearNodes_loop_index:
  "map ln_linearIndex acc = [0 ..< k] \<Longrightarrow>
   map ln_linearIndex (pairToLinearNodes_loop pending k acc ms)
     = [0 ..< length (pairToLinearNodes_loop pending k acc ms)]"
proof (induction ms arbitrary: pending k acc)
  case Nil
  from Nil have "length acc = k" by (metis length_map length_upt diff_zero)
  with Nil show ?case by simp
next
  case (Cons m ms)
  show ?case
  proof (cases "role m = User")
    case True
    then show ?thesis using Cons.IH [OF Cons.prems, of "Some m"] by simp
  next
    case False
    show ?thesis
    proof (cases pending)
      case None
      then show ?thesis using False Cons.IH [OF Cons.prems, of None] by simp
    next
      case (Some p)
      define n where "n = \<lparr>ln_id = ''lin_'' @ show_nat k,
                 ln_userText = msg_text p, ln_userHtml = html p,
                 ln_assistantText = msg_text m, ln_assistantHtml = html m,
                 ln_summary = makeSummaryFromUserText_pageinfo (msg_text p) 20,
                 ln_linearIndex = k\<rparr>"
      have "ln_linearIndex n = k" by (simp add: n_def)
      then have "map ln_linearIndex (acc @ [n]) = [0 ..< k + 1]"
        by (simp add: Cons.prems)
      from Cons.IH [OF this, of None]
      show ?thesis using False Some by (simp add: n_def)
    qed
  qed
qed

text \<open>
  C9. Pairing drops incomplete exchanges. \<open>pairMessages\<close> emits exactly one pair for
  each assistant message that directly follows a user message, built from those two
  messages, in order. An assistant message that arrives with no pending user message
  (at the start, or directly after another assistant message) adds nothing, and neither
  does a trailing user message. So there are never more pairs
  than assistant messages, nor more than user messages. \<open>pairToLinearNodes\<close> of
  pageinfo.ts produces the same pairs, numbered from \<open>0\<close>.
\<close>

theorem pairing_drops_incomplete_exchanges:
  "pairMessages msgs = map pair_of (complete_exchanges msgs)
   \<and> pairMessages (\<lparr>role = Assistant, msg_text = t, html = h\<rparr> # msgs) = pairMessages msgs
   \<and> pairMessages (msgs @ [\<lparr>role = Assistant, msg_text = t, html = h\<rparr>,
                         \<lparr>role = Assistant, msg_text = t', html = h'\<rparr>])
       = pairMessages (msgs @ [\<lparr>role = Assistant, msg_text = t, html = h\<rparr>])
   \<and> pairMessages (msgs @ [\<lparr>role = User, msg_text = t, html = h\<rparr>]) = pairMessages msgs
   \<and> length (pairMessages msgs) \<le> length (filter (\<lambda>m. role m = Assistant) msgs)
   \<and> length (pairMessages msgs) \<le> length (filter (\<lambda>m. role m = User) msgs)
   \<and> map pair_of_linear (pairToLinearNodes msgs) = pairMessages msgs
   \<and> map ln_linearIndex (pairToLinearNodes msgs) = [0 ..< length (pairMessages msgs)]"
proof -
  have a: "pairMessages msgs = map pair_of (complete_exchanges msgs)"
    by (simp add: pairMessages_def pairMessages_loop_exchanges(1))
  have b: "pairMessages (\<lparr>role = Assistant, msg_text = t, html = h\<rparr> # msgs) = pairMessages msgs"
    by (simp add: pairMessages_def)
  have c: "pairMessages (msgs @ [\<lparr>role = User, msg_text = t, html = h\<rparr>]) = pairMessages msgs"
    by (simp add: pairMessages_def pairMessages_loop_trailing_user)
  have c': "pairMessages (msgs @ [\<lparr>role = Assistant, msg_text = t, html = h\<rparr>,
                         \<lparr>role = Assistant, msg_text = t', html = h'\<rparr>])
       = pairMessages (msgs @ [\<lparr>role = Assistant, msg_text = t, html = h\<rparr>])"
    by (simp add: pairMessages_def pairMessages_loop_assistant_twice)
  have d: "length (pairMessages msgs) \<le> length (filter (\<lambda>m. role m = Assistant) msgs)"
    using pairMessages_loop_assistant_bound [of None "[]" msgs] by (simp add: pairMessages_def)
  have e: "length (pairMessages msgs) \<le> length (filter (\<lambda>m. role m = User) msgs)"
    using pairMessages_loop_user_bound [of None "[]" msgs] by (simp add: pairMessages_def)
  have f: "map pair_of_linear (pairToLinearNodes msgs) = pairMessages msgs"
    by (simp add: pairToLinearNodes_def pairMessages_def pairToLinearNodes_loop_pairs)
  have "map ln_linearIndex (pairToLinearNodes msgs) = [0 ..< length (pairToLinearNodes msgs)]"
    using pairToLinearNodes_loop_index [of "[]" 0 None msgs] by (simp add: pairToLinearNodes_def)
  moreover have "length (pairToLinearNodes msgs) = length (pairMessages msgs)"
    using f by (metis length_map)
  ultimately have g: "map ln_linearIndex (pairToLinearNodes msgs) = [0 ..< length (pairMessages msgs)]"
    by simp
  from a b c c' d e f g show ?thesis by blast
qed

subsection \<open>Summaries\<close>

lemma is_ws_space [simp]: "is_ws space"
  by (simp add: is_ws_def space_def)







subsection \<open>Reading the table\<close>

lemma table_get_Own [simp]: "fmlookup t i = Some v \<Longrightarrow> table_get t i = Own v"
  by (simp add: table_get_def)

lemma table_get_Own_iff [simp]: "table_get t i = Own v \<longleftrightarrow> fmlookup t i = Some v"
  by (auto simp: table_get_def split: option.splits)

lemma table_get_None:
  "fmlookup t i = None \<Longrightarrow>
   table_get t i = (if i \<in> set inherited_names then Inherited else Absent)"
  by (simp add: table_get_def)

lemma table_get_Absent_iff:
  "table_get t i = Absent \<longleftrightarrow> fmlookup t i = None \<and> i \<notin> set inherited_names"
  by (auto simp: table_get_def split: option.splits)

lemma table_get_Inherited_iff:
  "table_get t i = Inherited \<longleftrightarrow> fmlookup t i = None \<and> i \<in> set inherited_names"
  by (auto simp: table_get_def split: option.splits)

lemma root_not_inherited: "ROOT_ID \<notin> set inherited_names"
  by (simp add: ROOT_ID_def inherited_names_def)

lemma fmdrop_absent: "fmlookup m k = None \<Longrightarrow> fmdrop k m = m"
  by (rule fmap_ext) auto

subsection \<open>Deleting with an invalid target\<close>

text \<open>
  Where the guards of \<open>deleteSubtree\<close> hold: at the root id, and at an id that is no key
  of the table and no inherited name either, the state is returned as it was given.
\<close>

lemma deleteSubtree_guards:
  "targetId = ROOT_ID \<or> fmlookup (nodes st) targetId = None \<and> targetId \<notin> set inherited_names \<Longrightarrow>
   deleteSubtree fuel st targetId = Some st"
  by (auto simp: deleteSubtree_def table_get_Absent_iff)

lemma deleteSubtree_guards_example:
  "deleteSubtree 0 (freshTree ''c_1'') ROOT_ID = Some (freshTree ''c_1'')
   \<and> fmlookup (nodes (freshTree ''c_1'')) ''n_0_ab'' = None
   \<and> deleteSubtree 0 (freshTree ''c_1'') ''n_0_ab'' = Some (freshTree ''c_1'')"
proof -
  have a: "fmlookup (nodes (freshTree ''c_1'')) ''n_0_ab'' = None"
    by (simp add: freshTree_def ROOT_ID_def)
  have b: "''n_0_ab'' \<notin> set inherited_names"
    by (simp add: inherited_names_def)
  have "deleteSubtree 0 (freshTree ''c_1'') ROOT_ID = Some (freshTree ''c_1'')"
    by (rule deleteSubtree_guards) simp
  moreover have "deleteSubtree 0 (freshTree ''c_1'') ''n_0_ab'' = Some (freshTree ''c_1'')"
    by (rule deleteSubtree_guards) (simp add: a b)
  ultimately show ?thesis using a by simp
qed

text \<open>
  C7. An invalid delete target is to be a no-op: \<open>deleteSubtree\<close> applied to an id that is
  not in the node table is to return the state unchanged. The guard of the function does
  not do this for an id that names an inherited property. In the example state, where
  \<open>n_1_b\<close> is active and \<open>constructor\<close> is no key of the table and none of
  \<open>collapsedIds\<close>, deleting \<open>constructor\<close> collects that id alone, removes nothing, and
  returns a state whose active id is the root: the state is not the one that was given.
\<close>

theorem delete_inherited_name_moves_active:
  "fmlookup (nodes two_branches) ''constructor'' = None
   \<and> activeId two_branches = ''n_1_b''
   \<and> collectSubtreeIds 1 two_branches ''constructor'' = Some [''constructor'']
   \<and> deleteSubtree 1 two_branches ''constructor'' = Some (two_branches\<lparr>activeId := ROOT_ID\<rparr>)
   \<and> deleteSubtree 1 two_branches ''constructor'' \<noteq> Some two_branches"
proof -
  have a: "fmlookup (nodes two_branches) ''constructor'' = None"
    by (simp add: two_branches_def ROOT_ID_def)
  have u: "fmlookup (nodes two_branches) ''undefined'' = None"
    by (simp add: two_branches_def ROOT_ID_def)
  have i: "table_get (nodes two_branches) ''constructor'' = Inherited"
    using a by (simp add: table_get_Inherited_iff inherited_names_def)
  have c: "collectSubtreeIds (Suc 0) two_branches ''constructor'' = Some [''constructor'']"
    using i by (simp add: collectSubtreeIds_def)
  have n: "fmdrop ''constructor'' (nodes two_branches) = nodes two_branches"
    using a by (rule fmdrop_absent)
  have k: "fmdrop ''constructor'' (collapsed_or_empty two_branches) = fmempty"
    by (simp add: collapsed_or_empty_def two_branches_def)
  have r: "ROOT_ID \<noteq> ''constructor''" by (simp add: ROOT_ID_def)
  have d: "deleteSubtree (Suc 0) two_branches ''constructor''
             = Some (two_branches\<lparr>activeId := ROOT_ID, nodes := nodes two_branches,
                                   collapsedIds := Some fmempty\<rparr>)"
    using r by (simp add: deleteSubtree_def i c n k u Let_def)
  have e: "two_branches\<lparr>activeId := ROOT_ID, nodes := nodes two_branches,
                          collapsedIds := Some fmempty\<rparr> = two_branches\<lparr>activeId := ROOT_ID\<rparr>"
    by (simp add: two_branches_def)
  have f: "two_branches\<lparr>activeId := ROOT_ID\<rparr> \<noteq> two_branches"
    by (simp add: two_branches_def ROOT_ID_def)
  have g: "activeId two_branches = ''n_1_b''"
    by (simp add: two_branches_def)
  from d e have d': "deleteSubtree (Suc 0) two_branches ''constructor''
                       = Some (two_branches\<lparr>activeId := ROOT_ID\<rparr>)"
    by (rule trans [OF _ arg_cong [of _ _ Some]])
  from d' f have h: "deleteSubtree (Suc 0) two_branches ''constructor'' \<noteq> Some two_branches"
    by simp
  from a g c d' h show ?thesis unfolding One_nat_def by (intro conjI)
qed

subsection \<open>Collapse toggles\<close>

lemma isHidden_loop_cong:
  "nodes st' = nodes st \<Longrightarrow> (\<And>p. is_collapsed st' p = is_collapsed st p) \<Longrightarrow>
   isHidden_loop st' guard curId = isHidden_loop st guard curId"
proof (induction st guard curId rule: isHidden_loop.induct)
  case (1 st guard curId)
  show ?case
  proof (cases "curId \<noteq> [] \<and> curId \<noteq> ROOT_ID \<and> curId \<notin> set guard")
    case False
    then show ?thesis
      by (subst isHidden_loop.simps, subst (2) isHidden_loop.simps) auto
  next
    case go: True
    show ?thesis
    proof (cases "fmlookup (nodes st) curId")
      case None
      with go "1.prems"(1) show ?thesis
        by (subst isHidden_loop.simps, subst (2) isHidden_loop.simps) simp
    next
      case (Some cur)
      show ?thesis
      proof (cases "parentId cur \<noteq> [] \<and> is_collapsed st (parentId cur)")
        case True
        with go Some "1.prems" show ?thesis
          by (subst isHidden_loop.simps, subst (2) isHidden_loop.simps) simp
      next
        case False
        from "1.IH" [OF go Some False "1.prems"]
        have "isHidden_loop st' (curId # guard) (parentId cur)
              = isHidden_loop st (curId # guard) (parentId cur)" .
        with go Some False "1.prems" show ?thesis
          by (subst isHidden_loop.simps, subst (2) isHidden_loop.simps) auto
      qed
    qed
  qed
qed

lemma is_collapsed_toggle_twice:
  "is_collapsed (toggleCollapseNode (toggleCollapseNode st i) i) p = is_collapsed st p"
  by (simp add: toggleCollapseNode_def is_collapsed_def collapsed_or_empty_def Let_def)

text \<open>
  C10. Toggling the collapse flag of a node twice gives a state in which
  \<open>isHiddenByCollapsed\<close> answers as in the original state for every node id; a toggle
  changes neither the node table, nor the active id, nor \<open>seenLinearCount\<close>.
\<close>

theorem toggle_collapse_twice_visibility:
  "isHiddenByCollapsed (toggleCollapseNode (toggleCollapseNode st i) i) x
     = isHiddenByCollapsed st x
   \<and> nodes (toggleCollapseNode st i) = nodes st
   \<and> activeId (toggleCollapseNode st i) = activeId st
   \<and> seenLinearCount (toggleCollapseNode st i) = seenLinearCount st"
proof -
  have "nodes (toggleCollapseNode (toggleCollapseNode st i) i) = nodes st"
    by (simp add: toggleCollapseNode_def Let_def)
  then have "isHiddenByCollapsed (toggleCollapseNode (toggleCollapseNode st i) i) x
     = isHiddenByCollapsed st x"
    unfolding isHiddenByCollapsed_def
    by (rule isHidden_loop_cong) (rule is_collapsed_toggle_twice)
  then show ?thesis by (simp add: toggleCollapseNode_def Let_def)
qed

subsection \<open>Well-formed trees\<close>

lemma wf_rootD: "wf_tree st \<Longrightarrow> \<exists>r. fmlookup (nodes st) ROOT_ID = Some r \<and> depth r = 0"
  by (simp add: wf_tree_def)

lemma wf_idD: "wf_tree st \<Longrightarrow> fmlookup (nodes st) k = Some n \<Longrightarrow> node_id n = k"
  by (simp add: wf_tree_def)

lemma wf_emptyD: "wf_tree st \<Longrightarrow> fmlookup (nodes st) [] = None"
  by (simp add: wf_tree_def)

lemma wf_parentD:
  "wf_tree st \<Longrightarrow> fmlookup (nodes st) k = Some n \<Longrightarrow> k \<noteq> ROOT_ID \<Longrightarrow>
   \<exists>p. fmlookup (nodes st) (parentId n) = Some p \<and> k \<in> set (children p) \<and> depth n = depth p + 1"
  unfolding wf_tree_def by blast

lemma wf_childD:
  "wf_tree st \<Longrightarrow> fmlookup (nodes st) k = Some n \<Longrightarrow> c \<in> set (children n) \<Longrightarrow>
   c \<noteq> ROOT_ID \<and> (\<exists>m. fmlookup (nodes st) c = Some m \<and> parentId m = k)"
  unfolding wf_tree_def by blast

lemma wf_child_depth:
  assumes "wf_tree st" and "fmlookup (nodes st) k = Some n" and "c \<in> set (children n)"
  shows "\<exists>m. fmlookup (nodes st) c = Some m \<and> parentId m = k \<and> depth m = depth n + 1 \<and> c \<noteq> ROOT_ID"
proof -
  from wf_childD [OF assms] obtain m where
    m: "c \<noteq> ROOT_ID" "fmlookup (nodes st) c = Some m" "parentId m = k" by blast
  from wf_parentD [OF assms(1) m(2) m(1)] m(3) assms(2)
  have "depth m = depth n + 1" by auto
  with m show ?thesis by blast
qed

lemma wf_nonroot_depth:
  assumes "wf_tree st" and "fmlookup (nodes st) k = Some n" and "k \<noteq> ROOT_ID"
  shows "0 < depth n"
  using wf_parentD [OF assms] by auto

subsection \<open>The depth-first walks\<close>

lemma those_map_Some_iff:
  "those (map f xs) = Some ys \<longleftrightarrow> list_all2 (\<lambda>x y. f x = Some y) xs ys"
  by (induction xs arbitrary: ys) (auto simp: list_all2_Cons1 split: option.splits)

lemma list_all2_rightD: "list_all2 P xs ys \<Longrightarrow> y \<in> set ys \<Longrightarrow> \<exists>x\<in>set xs. P x y"
  by (induction rule: list_all2_induct) auto

lemma list_all2_leftD: "list_all2 P xs ys \<Longrightarrow> x \<in> set xs \<Longrightarrow> \<exists>y\<in>set ys. P x y"
  by (induction rule: list_all2_induct) auto

lemma those_map_None_iff:
  "those (map f xs) = None \<longleftrightarrow> (\<exists>x\<in>set xs. f x = None)"
  by (induction xs) (auto split: option.splits)

lemma collect_dfs_Suc:
  "collect_dfs fuel st i = Some xs \<Longrightarrow> collect_dfs (Suc fuel) st i = Some xs"
proof (induction fuel arbitrary: i xs)
  case 0
  then show ?case by simp
next
  case (Suc fuel)
  show ?case
  proof (cases "fmlookup (nodes st) i")
    case None
    with Suc.prems show ?thesis by (auto simp: table_get_None split: if_splits)
  next
    case (Some n)
    with Suc.prems obtain rs where
      rs: "those (map (collect_dfs fuel st) (children n)) = Some rs" and xs: "xs = i # concat rs"
      by auto
    from rs have "list_all2 (\<lambda>c r. collect_dfs fuel st c = Some r) (children n) rs"
      by (simp add: those_map_Some_iff)
    then have "list_all2 (\<lambda>c r. collect_dfs (Suc fuel) st c = Some r) (children n) rs"
      by (rule list_all2_mono) (rule Suc.IH)
    then have "those (map (collect_dfs (Suc fuel) st) (children n)) = Some rs"
      by (simp only: those_map_Some_iff)
    with Some xs show ?thesis by (simp del: collect_dfs.simps(2) add: collect_dfs.simps(2) [of "Suc fuel"])
  qed
qed

lemma collect_dfs_mono:
  "collect_dfs fuel st i = Some xs \<Longrightarrow> fuel \<le> fuel' \<Longrightarrow> collect_dfs fuel' st i = Some xs"
  by (induction fuel' ) (auto simp: le_Suc_eq dest: collect_dfs_Suc simp del: collect_dfs.simps)

lemma depth_le_max_depth:
  "fmlookup (nodes st) k = Some n \<Longrightarrow> depth n \<le> max_depth st"
proof -
  assume "fmlookup (nodes st) k = Some n"
  then have "n \<in> fmran' (nodes st)" by (rule fmran'I)
  moreover have "finite (fmran' (nodes st))" by (simp add: fmran'_alt_def)
  ultimately show ?thesis by (simp add: max_depth_def)
qed

lemma collect_dfs_enough:
  assumes wf: "wf_tree st"
  shows "0 < fuel \<Longrightarrow> (\<And>n. fmlookup (nodes st) i = Some n \<Longrightarrow> max_depth st < fuel + depth n) \<Longrightarrow>
         collect_dfs fuel st i \<noteq> None"
proof (induction fuel arbitrary: i)
  case 0
  then show ?case by simp
next
  case (Suc fuel)
  show ?case
  proof (cases "fmlookup (nodes st) i")
    case None
    then show ?thesis by (simp add: table_get_None)
  next
    case (Some n)
    have "collect_dfs fuel st c \<noteq> None" if c: "c \<in> set (children n)" for c
    proof -
      from wf_child_depth [OF wf Some c] obtain m where
        m: "fmlookup (nodes st) c = Some m" "depth m = depth n + 1" by blast
      from Suc.prems(2) [OF Some] m(2) have lt: "max_depth st < fuel + depth m" by simp
      moreover from depth_le_max_depth [OF m(1)] lt have "0 < fuel" by simp
      ultimately show ?thesis using m(1) by (intro Suc.IH) auto
    qed
    then have "those (map (collect_dfs fuel st) (children n)) \<noteq> None"
      by (simp add: those_map_None_iff)
    with Some show ?thesis by auto
  qed
qed

lemma collect_dfs_total:
  assumes "wf_tree st" and "max_depth st < fuel"
  shows "\<exists>xs. collect_dfs fuel st i = Some xs"
proof -
  have "collect_dfs fuel st i \<noteq> None"
    using assms by (intro collect_dfs_enough) auto
  then show ?thesis by auto
qed

text \<open>Everything a walk from \<open>i\<close> collects, other than \<open>i\<close>, lies strictly deeper.\<close>

lemma collect_dfs_deeper:
  assumes wf: "wf_tree st"
  shows "collect_dfs fuel st i = Some xs \<Longrightarrow> x \<in> set xs \<Longrightarrow> fmlookup (nodes st) i \<noteq> None \<Longrightarrow>
         \<exists>n m. fmlookup (nodes st) i = Some n \<and> fmlookup (nodes st) x = Some m
               \<and> (x = i \<or> depth n < depth m)"
proof (induction fuel arbitrary: i xs)
  case 0
  then show ?case by simp
next
  case (Suc fuel)
  show ?case
  proof (cases "fmlookup (nodes st) i")
    case None
    with Suc.prems show ?thesis by simp
  next
    case (Some n)
    with Suc.prems(1) obtain rs where
      rs: "those (map (collect_dfs fuel st) (children n)) = Some rs" and xs: "xs = i # concat rs"
      by auto
    show ?thesis
    proof (cases "x = i")
      case True
      with Some show ?thesis by simp
    next
      case False
      with Suc.prems(2) xs obtain r where r: "r \<in> set rs" "x \<in> set r" by auto
      from rs have "list_all2 (\<lambda>c r. collect_dfs fuel st c = Some r) (children n) rs"
        by (simp add: those_map_Some_iff)
      with r(1) obtain c where c: "c \<in> set (children n)" "collect_dfs fuel st c = Some r"
        by (blast dest: list_all2_rightD)
      from wf_child_depth [OF wf Some c(1)] have cn: "fmlookup (nodes st) c \<noteq> None" by auto
      from Suc.IH [OF c(2) r(2) cn] obtain k m where
        km: "fmlookup (nodes st) c = Some k" "fmlookup (nodes st) x = Some m"
            "x = c \<or> depth k < depth m" by blast
      from wf_child_depth [OF wf Some c(1)] km(1) have "depth k = depth n + 1" by auto
      with km Some show ?thesis by auto
    qed
  qed
qed


subsection \<open>Deleting a subtree of a well-formed tree\<close>

lemma wf_ids_match: "wf_tree st \<Longrightarrow> ids_match st"
  by (simp add: wf_tree_def ids_match_def)

lemma deleteSubtree_seen:
  "deleteSubtree fuel st targetId = Some st' \<Longrightarrow> seenLinearCount st' = seenLinearCount st"
  by (auto simp: deleteSubtree_def Let_def split: option.splits if_splits)

lemma deleteSubtree_active:
  "fmlookup (nodes st) targetId = Some target \<Longrightarrow> targetId \<noteq> ROOT_ID \<Longrightarrow>
   deleteSubtree fuel st targetId = Some st' \<Longrightarrow>
   activeId st' = (if fmlookup (nodes st') (parentId target) \<noteq> None then parentId target
                   else ROOT_ID)"
  by (auto simp: deleteSubtree_def Let_def split: option.splits if_splits)

lemma parent_not_collected:
  assumes wf: "wf_tree st" and t: "fmlookup (nodes st) targetId = Some target"
    and nr: "targetId \<noteq> ROOT_ID" and c: "collect_dfs fuel st targetId = Some ids"
  shows "parentId target \<notin> set ids"
proof
  assume a: "parentId target \<in> set ids"
  from t have "fmlookup (nodes st) targetId \<noteq> None" by simp
  from collect_dfs_deeper [OF wf c a this] t obtain m where
    m: "fmlookup (nodes st) (parentId target) = Some m"
       "parentId target = targetId \<or> depth target < depth m" by auto
  from wf_parentD [OF wf t nr] m(1) have "depth target = depth m + 1" by auto
  with m t show False by auto
qed

lemma deleteSubtree_wf:
  assumes wf: "wf_tree st" and t: "fmlookup (nodes st) targetId = Some target"
    and nr: "targetId \<noteq> ROOT_ID" and fuel: "max_depth st < fuel"
  shows "\<exists>ids parent.
           collect_dfs fuel st targetId = Some ids
         \<and> fmlookup (nodes st) (parentId target) = Some parent
         \<and> parentId target \<notin> set ids
         \<and> deleteSubtree fuel st targetId =
             Some (st\<lparr>activeId := parentId target,
                      nodes := fmupd (parentId target)
                                 (parent\<lparr>children := filter (\<lambda>c. c \<noteq> targetId) (children parent)\<rparr>)
                                 (fmdrop_set (set ids) (nodes st)),
                      collapsedIds := Some (fmdrop_set (set ids) (collapsed_or_empty st))\<rparr>)"
proof -
  from collect_dfs_total [OF wf fuel] obtain ids where
    ids: "collect_dfs fuel st targetId = Some ids" by blast
  from wf_parentD [OF wf t nr] obtain parent where
    p: "fmlookup (nodes st) (parentId target) = Some parent" by blast
  from parent_not_collected [OF wf t nr ids] have np: "parentId target \<notin> set ids" .
  have "deleteSubtree fuel st targetId =
             Some (st\<lparr>activeId := parentId target,
                      nodes := fmupd (parentId target)
                                 (parent\<lparr>children := filter (\<lambda>c. c \<noteq> targetId) (children parent)\<rparr>)
                                 (fmdrop_set (set ids) (nodes st)),
                      collapsedIds := Some (fmdrop_set (set ids) (collapsed_or_empty st))\<rparr>)"
    using t nr ids p np by (simp add: deleteSubtree_def collectSubtreeIds_def Let_def)
  with ids p np show ?thesis by blast
qed

lemma deleteSubtree_wf_unique:
  assumes wf: "wf_tree st" and t: "fmlookup (nodes st) targetId = Some target"
    and nr: "targetId \<noteq> ROOT_ID"
  shows "\<exists>st'. (\<forall>fuel. max_depth st < fuel \<longrightarrow> deleteSubtree fuel st targetId = Some st')
           \<and> activeId st' = parentId target
           \<and> fmlookup (nodes st') (parentId target) \<noteq> None
           \<and> seenLinearCount st' = seenLinearCount st
           \<and> ids_match st'"
proof -
  let ?f0 = "Suc (max_depth st)"
  from deleteSubtree_wf [OF wf t nr, of ?f0] obtain ids parent where
    c: "collect_dfs ?f0 st targetId = Some ids"
    and p: "fmlookup (nodes st) (parentId target) = Some parent"
    and np: "parentId target \<notin> set ids"
    and d: "deleteSubtree ?f0 st targetId =
             Some (st\<lparr>activeId := parentId target,
                      nodes := fmupd (parentId target)
                                 (parent\<lparr>children := filter (\<lambda>c. c \<noteq> targetId) (children parent)\<rparr>)
                                 (fmdrop_set (set ids) (nodes st)),
                      collapsedIds := Some (fmdrop_set (set ids) (collapsed_or_empty st))\<rparr>)"
      (is "_ = Some ?st'")
    by auto
  have all: "deleteSubtree fuel st targetId = Some ?st'" if "max_depth st < fuel" for fuel
  proof -
    from that have "?f0 \<le> fuel" by simp
    from collect_dfs_mono [OF c this] have "collect_dfs fuel st targetId = Some ids" .
    then show ?thesis
      using t nr p np by (simp add: deleteSubtree_def collectSubtreeIds_def Let_def)
  qed
  have "ids_match ?st'"
    using wf_ids_match [OF wf] p by (auto simp: ids_match_def split: if_splits)
  with all show ?thesis by (intro exI [of _ ?st']) simp
qed

subsection \<open>Reconciling\<close>

lemma appendUnderActive_Some:
  "active_parent st = Some parent \<Longrightarrow>
   appendUnderActive st pair idx rnd =
     Some (st\<lparr>activeId := new_id idx rnd, seenLinearCount := idx + 1,
              nodes := fmupd (node_id parent)
                         (parent\<lparr>children := children parent @ [new_id idx rnd]\<rparr>)
                         (fmupd (new_id idx rnd)
                            \<lparr>node_id = new_id idx rnd, parentId = node_id parent, children = [],
                             depth = depth parent + 1, linearIndex = int idx,
                             summary = makeSummaryFromUserText (userText pair) 20,
                             node_userHtml = userHtml pair,
                             node_assistantHtml = assistantHtml pair\<rparr> (nodes st))\<rparr>)"
  by (simp add: appendUnderActive_def Let_def)

lemma active_parent_in_table:
  "active_parent st = Some parent \<Longrightarrow> \<exists>k. fmlookup (nodes st) k = Some parent"
  by (auto simp: active_parent_def split: looked_up.splits)

lemma active_parent_resolves:
  "fmlookup (nodes st) (activeId st) \<noteq> None \<Longrightarrow> active_parent st \<noteq> None"
  by (auto simp: active_parent_def split: option.splits)

lemma appendUnderActive_step:
  assumes im: "ids_match st" and ap: "active_parent st \<noteq> None"
  shows "\<exists>st'. appendUnderActive st pair idx rnd = Some st'
          \<and> ids_match st' \<and> active_parent st' \<noteq> None
          \<and> seenLinearCount st' = idx + 1
          \<and> (\<forall>k n'. fmlookup (nodes st') k = Some n' \<longrightarrow>
                linearIndex n' = int idx
              \<or> (\<exists>n. fmlookup (nodes st) k = Some n \<and> linearIndex n' = linearIndex n))"
proof -
  from ap obtain parent where p: "active_parent st = Some parent" by auto
  from active_parent_in_table [OF p] obtain k where k: "fmlookup (nodes st) k = Some parent"
    by blast
  with im have pk: "node_id parent = k" by (simp add: ids_match_def)
  note eq = appendUnderActive_Some [OF p, of pair idx rnd]
  let ?st' = "the (appendUnderActive st pair idx rnd)"
  have 1: "ids_match ?st'"
    using im by (auto simp: eq ids_match_def split: if_splits)
  have 2: "fmlookup (nodes ?st') (activeId ?st') \<noteq> None"
    by (simp add: eq)
  have 3: "\<forall>k n'. fmlookup (nodes ?st') k = Some n' \<longrightarrow>
                linearIndex n' = int idx
              \<or> (\<exists>n. fmlookup (nodes st) k = Some n \<and> linearIndex n' = linearIndex n)"
    using k pk by (auto simp: eq split: if_splits)
  have 4: "seenLinearCount ?st' = idx + 1" by (simp add: eq)
  from 1 active_parent_resolves [OF 2] 3 4 eq show ?thesis by auto
qed

lemma reconcile_loop_props:
  "ids_match st \<Longrightarrow> active_parent st \<noteq> None \<Longrightarrow>
   \<exists>st''. reconcile_loop rnd pairs i st = Some st''
     \<and> seenLinearCount st'' = (if i < length pairs then length pairs else seenLinearCount st)
     \<and> (\<forall>k n''. fmlookup (nodes st'') k = Some n'' \<longrightarrow>
           (int i \<le> linearIndex n'' \<and> linearIndex n'' < int (length pairs))
         \<or> (\<exists>n. fmlookup (nodes st) k = Some n \<and> linearIndex n'' = linearIndex n))"
proof (induction rnd pairs i st rule: reconcile_loop.induct)
  case (1 rnd pairs i st)
  show ?case
  proof (cases "i < length pairs")
    case False
    then show ?thesis by (subst reconcile_loop.simps) simp
  next
    case True
    from appendUnderActive_step [OF "1.prems", of "pairs ! i" i "rnd i"] obtain st' where
      st': "appendUnderActive st (pairs ! i) i (rnd i) = Some st'"
      "ids_match st'" "active_parent st' \<noteq> None" "seenLinearCount st' = i + 1"
      and keep: "\<forall>k n'. fmlookup (nodes st') k = Some n' \<longrightarrow>
                linearIndex n' = int i
              \<or> (\<exists>n. fmlookup (nodes st) k = Some n \<and> linearIndex n' = linearIndex n)"
      by blast
    from "1.IH" [OF True st'(1) st'(2) st'(3)] obtain st'' where
      r: "reconcile_loop rnd pairs (i + 1) st' = Some st''"
      and s: "seenLinearCount st'' = (if i + 1 < length pairs then length pairs else seenLinearCount st')"
      and k2: "\<forall>k n''. fmlookup (nodes st'') k = Some n'' \<longrightarrow>
           (int (i + 1) \<le> linearIndex n'' \<and> linearIndex n'' < int (length pairs))
         \<or> (\<exists>n. fmlookup (nodes st') k = Some n \<and> linearIndex n'' = linearIndex n)"
      by blast
    have a: "reconcile_loop rnd pairs i st = Some st''"
      using True st'(1) r by (subst reconcile_loop.simps) simp
    have b: "seenLinearCount st'' = length pairs"
      using s st'(4) True by (auto split: if_splits)
    have c: "(int i \<le> linearIndex n'' \<and> linearIndex n'' < int (length pairs))
         \<or> (\<exists>n. fmlookup (nodes st) k = Some n \<and> linearIndex n'' = linearIndex n)"
      if "fmlookup (nodes st'') k = Some n''" for k n''
    proof -
      from k2 that consider
        "int (i + 1) \<le> linearIndex n'' \<and> linearIndex n'' < int (length pairs)"
        | n' where "fmlookup (nodes st') k = Some n'" "linearIndex n'' = linearIndex n'"
        by blast
      then show ?thesis
      proof cases
        case 1
        then show ?thesis by simp
      next
        case 2
        with keep True show ?thesis by fastforce
      qed
    qed
    from a b c True show ?thesis by auto
  qed
qed


lemma wf_two: "wf_tree two_branches"
  by (auto simp: wf_tree_def two_branches_def leaf_def root_node_def ROOT_ID_def split: if_splits)

lemma two_branches_target:
  "fmlookup (nodes two_branches) ''n_0_a'' = Some (leaf ''n_0_a'' ROOT_ID 1 0 [])"
  by (simp add: two_branches_def ROOT_ID_def)

subsection \<open>The active id after a deletion\<close>

text \<open>
  C5. For a target that is in the table and is not the root, \<open>deleteSubtree\<close> sets the
  new active id to the parent of the deleted node when that parent is still in the table
  after the deletion, and to the root otherwise; it does so whether the previous active id
  lay inside the deleted subtree or not. In a well-formed tree the deletion returns for
  every recursion bound above the depth of the tree, the parent survives, and the new
  active id is the parent.
\<close>

theorem delete_repoints_active_to_parent:
  assumes "fmlookup (nodes st) targetId = Some target" and "targetId \<noteq> ROOT_ID"
  shows "(\<forall>fuel st'. deleteSubtree fuel st targetId = Some st' \<longrightarrow>
            activeId st' = (if fmlookup (nodes st') (parentId target) \<noteq> None
                            then parentId target else ROOT_ID))
       \<and> (wf_tree st \<longrightarrow>
            (\<exists>st'. (\<forall>fuel. max_depth st < fuel \<longrightarrow> deleteSubtree fuel st targetId = Some st')
                  \<and> fmlookup (nodes st') (parentId target) \<noteq> None
                  \<and> activeId st' = parentId target))"
proof (intro conjI allI impI)
  fix fuel st'
  assume "deleteSubtree fuel st targetId = Some st'"
  with assms show "activeId st' = (if fmlookup (nodes st') (parentId target) \<noteq> None
                            then parentId target else ROOT_ID)"
    by (rule deleteSubtree_active)
next
  assume "wf_tree st"
  from deleteSubtree_wf_unique [OF this assms]
  show "\<exists>st'. (\<forall>fuel. max_depth st < fuel \<longrightarrow> deleteSubtree fuel st targetId = Some st')
                  \<and> fmlookup (nodes st') (parentId target) \<noteq> None
                  \<and> activeId st' = parentId target"
    by blast
qed

text \<open>Deleting the first child of the root in \<open>two_branches\<close> makes the root active.\<close>

theorem delete_repoints_active_to_parent_witness:
  "\<exists>st'. deleteSubtree (Suc (max_depth two_branches)) two_branches ''n_0_a'' = Some st'
        \<and> activeId st' = ROOT_ID"
proof -
  have nr: "''n_0_a'' \<noteq> ROOT_ID" by (simp add: ROOT_ID_def)
  from delete_repoints_active_to_parent [OF two_branches_target nr] wf_two
  obtain st' where
    "\<forall>fuel. max_depth two_branches < fuel \<longrightarrow> deleteSubtree fuel two_branches ''n_0_a'' = Some st'"
    "activeId st' = parentId (leaf ''n_0_a'' ROOT_ID 1 0 [])"
    by blast
  then show ?thesis by (auto simp: leaf_def)
qed

text \<open>
  In \<open>two_branches\<close> the active node \<open>n_1_b\<close> is outside the subtree of \<open>n_0_a\<close>, which
  consists of \<open>n_0_a\<close> alone; after deleting \<open>n_0_a\<close> the active id is the root, not
  \<open>n_1_b\<close>.
\<close>

theorem delete_moves_outside_active_counterexample:
  "wf_tree two_branches
   \<and> activeId two_branches = ''n_1_b''
   \<and> collectSubtreeIds 2 two_branches ''n_0_a'' = Some [''n_0_a'']
   \<and> map_option activeId (deleteSubtree 2 two_branches ''n_0_a'') = Some ''root''"
proof -
  have "activeId two_branches = ''n_1_b''" by (simp add: two_branches_def)
  moreover have "collectSubtreeIds 2 two_branches ''n_0_a'' = Some [''n_0_a'']"
    by (simp add: two_branches_def leaf_def root_node_def ROOT_ID_def collectSubtreeIds_def
        numeral_2_eq_2)
  moreover have "map_option activeId (deleteSubtree 2 two_branches ''n_0_a'') = Some ''root''"
    by (simp add: deleteSubtree_def table_get_def two_branches_def leaf_def root_node_def
      ROOT_ID_def collectSubtreeIds_def numeral_2_eq_2 Let_def)
  ultimately show ?thesis using wf_two by simp
qed

subsection \<open>No resurrection\<close>

text \<open>
  C1. \<open>deleteSubtree\<close> never changes \<open>seenLinearCount\<close>. In a well-formed tree, deleting
  a node other than the root returns, and reconciling the result with any sequence of
  pairs returns a state whose \<open>seenLinearCount\<close> is not smaller than before the deletion
  and in which every entry of the node table either carries a linear index not below the
  \<open>seenLinearCount\<close> from before the deletion, or is stored under an id that survived the
  deletion and carries the linear index that id had then. So no node is created for a
  linear index that was folded into the tree before the deletion.
\<close>

theorem no_resurrection:
  "(\<forall>fuel st'. deleteSubtree fuel st targetId = Some st' \<longrightarrow>
       seenLinearCount st' = seenLinearCount st)
   \<and> (wf_tree st \<and> fmlookup (nodes st) targetId \<noteq> None \<and> targetId \<noteq> ROOT_ID \<longrightarrow>
       (\<exists>st'. (\<forall>fuel. max_depth st < fuel \<longrightarrow> deleteSubtree fuel st targetId = Some st')
          \<and> seenLinearCount st' = seenLinearCount st
          \<and> (\<forall>rnd pairs. \<exists>st''.
                reconcile rnd st' pairs = Some st''
              \<and> seenLinearCount st \<le> seenLinearCount st''
              \<and> (\<forall>k n''. fmlookup (nodes st'') k = Some n'' \<longrightarrow>
                     int (seenLinearCount st) \<le> linearIndex n''
                   \<or> (\<exists>n'. fmlookup (nodes st') k = Some n'
                            \<and> linearIndex n'' = linearIndex n')))))"
proof (intro conjI allI impI)
  fix fuel st'
  assume "deleteSubtree fuel st targetId = Some st'"
  then show "seenLinearCount st' = seenLinearCount st" by (rule deleteSubtree_seen)
next
  assume a: "wf_tree st \<and> fmlookup (nodes st) targetId \<noteq> None \<and> targetId \<noteq> ROOT_ID"
  then obtain target where t: "fmlookup (nodes st) targetId = Some target" by auto
  from a deleteSubtree_wf_unique [OF _ t] obtain st' where
    d: "\<forall>fuel. max_depth st < fuel \<longrightarrow> deleteSubtree fuel st targetId = Some st'"
    and act: "activeId st' = parentId target" "fmlookup (nodes st') (parentId target) \<noteq> None"
    and seen: "seenLinearCount st' = seenLinearCount st"
    and im: "ids_match st'"
    by blast
  from act have ap: "active_parent st' \<noteq> None"
    by (intro active_parent_resolves) simp
  have "\<exists>st''. reconcile rnd st' pairs = Some st''
              \<and> seenLinearCount st \<le> seenLinearCount st''
              \<and> (\<forall>k n''. fmlookup (nodes st'') k = Some n'' \<longrightarrow>
                     int (seenLinearCount st) \<le> linearIndex n''
                   \<or> (\<exists>n'. fmlookup (nodes st') k = Some n'
                            \<and> linearIndex n'' = linearIndex n'))" for rnd pairs
  proof (cases "length pairs \<le> seenLinearCount st'")
    case True
    then show ?thesis by (simp add: reconcile_def seen)
  next
    case False
    from reconcile_loop_props [OF im ap, of rnd pairs "seenLinearCount st'"] obtain st'' where
      "reconcile_loop rnd pairs (seenLinearCount st') st' = Some st''"
      "seenLinearCount st'' =
         (if seenLinearCount st' < length pairs then length pairs else seenLinearCount st')"
      "\<forall>k n''. fmlookup (nodes st'') k = Some n'' \<longrightarrow>
           (int (seenLinearCount st') \<le> linearIndex n'' \<and> linearIndex n'' < int (length pairs))
         \<or> (\<exists>n. fmlookup (nodes st') k = Some n \<and> linearIndex n'' = linearIndex n)"
      by blast
    with False seen show ?thesis
      by (intro exI [of _ st'']) (auto simp: reconcile_def)
  qed
  with d seen show "\<exists>st'. (\<forall>fuel. max_depth st < fuel \<longrightarrow> deleteSubtree fuel st targetId = Some st')
          \<and> seenLinearCount st' = seenLinearCount st
          \<and> (\<forall>rnd pairs. \<exists>st''.
                reconcile rnd st' pairs = Some st''
              \<and> seenLinearCount st \<le> seenLinearCount st''
              \<and> (\<forall>k n''. fmlookup (nodes st'') k = Some n'' \<longrightarrow>
                     int (seenLinearCount st) \<le> linearIndex n''
                   \<or> (\<exists>n'. fmlookup (nodes st') k = Some n'
                            \<and> linearIndex n'' = linearIndex n')))"
    by blast
qed

theorem no_resurrection_witness:
  "\<exists>st'. deleteSubtree (Suc (max_depth two_branches)) two_branches ''n_0_a'' = Some st'
        \<and> seenLinearCount st' = 2
        \<and> (\<exists>st''. reconcile (\<lambda>i. ''f3'') st' (replicate 3 example_pair) = Some st''
                  \<and> 2 \<le> seenLinearCount st'')"
proof -
  have "wf_tree two_branches \<and> fmlookup (nodes two_branches) ''n_0_a'' \<noteq> None
        \<and> ''n_0_a'' \<noteq> ROOT_ID"
    using wf_two two_branches_target by (simp add: ROOT_ID_def)
  with no_resurrection [of two_branches "''n_0_a''"] obtain st' where
    d: "\<forall>fuel. max_depth two_branches < fuel \<longrightarrow>
          deleteSubtree fuel two_branches ''n_0_a'' = Some st'"
    and s: "seenLinearCount st' = seenLinearCount two_branches"
    and r: "\<forall>rnd pairs. \<exists>st''. reconcile rnd st' pairs = Some st''
              \<and> seenLinearCount two_branches \<le> seenLinearCount st''
              \<and> (\<forall>k n''. fmlookup (nodes st'') k = Some n'' \<longrightarrow>
                     int (seenLinearCount two_branches) \<le> linearIndex n''
                   \<or> (\<exists>n'. fmlookup (nodes st') k = Some n'
                            \<and> linearIndex n'' = linearIndex n'))"
    by blast
  have two: "seenLinearCount two_branches = 2" by (simp add: two_branches_def)
  from r obtain st'' where
    "reconcile (\<lambda>i. ''f3'') st' (replicate 3 example_pair) = Some st''"
    "seenLinearCount two_branches \<le> seenLinearCount st''"
    by blast
  with d s two show ?thesis by auto
qed

subsection \<open>Ids\<close>

lemma digit_char_inj: "a < 10 \<Longrightarrow> b < 10 \<Longrightarrow> digit_char a = digit_char b \<Longrightarrow> a = b"
proof -
  assume a: "a < 10" and b: "b < 10" and e: "digit_char a = digit_char b"
  have "distinct ''0123456789''" by simp
  moreover from a b have "a < length ''0123456789''" "b < length ''0123456789''" by simp_all
  ultimately show "a = b"
    using e unfolding digit_char_def by (simp only: nth_eq_iff_index_eq)
qed

lemma digit_char_not_underscore: "d < 10 \<Longrightarrow> digit_char d \<noteq> CHR ''_''"
proof -
  assume "d < 10"
  then have "digit_char d \<in> set ''0123456789''"
    unfolding digit_char_def by (intro nth_mem) simp
  then show ?thesis by auto
qed

lemma show_nat_not_Nil: "show_nat n \<noteq> []"
  by (subst show_nat.simps) simp

lemma show_nat_inj: "show_nat n = show_nat m \<Longrightarrow> n = m"
proof (induction n arbitrary: m rule: show_nat.induct)
  case (1 n)
  show ?case
  proof (cases "n < 10")
    case n: True
    show ?thesis
    proof (cases "m < 10")
      case True
      with n "1.prems" show ?thesis
        by (auto simp: show_nat.simps [of n] show_nat.simps [of m] dest: digit_char_inj)
    next
      case False
      with n "1.prems" show_nat_not_Nil [of "m div 10"] show ?thesis
        by (auto simp: show_nat.simps [of n] show_nat.simps [of m])
    qed
  next
    case n: False
    show ?thesis
    proof (cases "m < 10")
      case True
      with n "1.prems" show_nat_not_Nil [of "n div 10"] show ?thesis
        by (auto simp: show_nat.simps [of n] show_nat.simps [of m])
    next
      case False
      with n "1.prems" have e: "show_nat (n div 10) = show_nat (m div 10)"
        and d: "digit_char (n mod 10) = digit_char (m mod 10)"
        by (auto simp: show_nat.simps [of n] show_nat.simps [of m])
      from "1.IH" [OF n e] have "n div 10 = m div 10" .
      moreover have "n mod 10 = m mod 10" by (rule digit_char_inj [OF _ _ d]) simp_all
      ultimately show ?thesis by (metis div_mult_mod_eq)
    qed
  qed
qed

lemma show_nat_no_underscore: "CHR ''_'' \<notin> set (show_nat n)"
proof (induction n rule: show_nat.induct)
  case (1 n)
  show ?case
  proof (cases "n < 10")
    case True
    then show ?thesis
      using digit_char_not_underscore [of n] by (auto simp: show_nat.simps [of n])
  next
    case False
    with "1.IH" digit_char_not_underscore [of "n mod 10"] show ?thesis
      by (auto simp: show_nat.simps [of n])
  qed
qed

lemma align_id_inj: "align_id i = align_id j \<Longrightarrow> i = j"
  by (simp add: align_id_def show_nat_inj)

lemma align_id_not_root: "align_id i \<noteq> ROOT_ID"
  by (simp add: align_id_def ROOT_ID_def)

lemma split_at_underscore:
  assumes "CHR ''_'' \<notin> set a" and "CHR ''_'' \<notin> set b" and "a @ CHR ''_'' # r = b @ CHR ''_'' # r'"
  shows "a = b"
proof -
  have "takeWhile (\<lambda>c. c \<noteq> CHR ''_'') (a @ CHR ''_'' # r) = a"
    using assms(1) by (simp add: takeWhile_append2 [of a "\<lambda>c. c \<noteq> CHR ''_''"] takeWhile_append)
  moreover have "takeWhile (\<lambda>c. c \<noteq> CHR ''_'') (b @ CHR ''_'' # r') = b"
    using assms(2) by (simp add: takeWhile_append)
  ultimately show ?thesis using assms(3) by simp
qed

lemma new_id_inj: "new_id i r = new_id j r' \<Longrightarrow> i = j"
proof -
  assume "new_id i r = new_id j r'"
  then have "show_nat i @ CHR ''_'' # r = show_nat j @ CHR ''_'' # r'"
    by (simp add: new_id_def)
  with show_nat_no_underscore [of i] show_nat_no_underscore [of j]
  have "show_nat i = show_nat j" by (rule split_at_underscore)
  then show ?thesis by (rule show_nat_inj)
qed


subsection \<open>Aligning\<close>

lemma aligned_tableD:
  "aligned_table pairs n ns \<Longrightarrow> i < n \<Longrightarrow> fmlookup ns (align_id i) = Some (aligned_node pairs n i)"
proof -
  assume a: "aligned_table pairs n ns" and i: "i < n"
  then have "map (\<lambda>i. fmlookup ns (align_id i)) [0 ..< n] ! i
       = map (\<lambda>i. Some (aligned_node pairs n i)) [0 ..< n] ! i"
    by (simp add: aligned_table_def)
  with i show ?thesis by simp
qed

lemma aligned_tableI:
  assumes "fmdom' ns = insert ROOT_ID (align_id ` {..<n})"
    and "fmlookup ns ROOT_ID = Some (aligned_root n)"
    and "\<And>i. i < n \<Longrightarrow> fmlookup ns (align_id i) = Some (aligned_node pairs n i)"
  shows "aligned_table pairs n ns"
proof -
  have "set (map align_id [0 ..< n]) = align_id ` {..<n}" by (simp add: lessThan_atLeast0)
  with assms show ?thesis by (simp add: aligned_table_def)
qed

lemma aligned_table_step:
  assumes inv: "aligned_table pairs i ns" and i: "i < length pairs"
  shows "\<exists>p. fmlookup (fmupd (align_id i)
                 \<lparr>node_id = align_id i, parentId = last_aligned i, children = [],
                  depth = (case fmlookup ns (last_aligned i) of Some p \<Rightarrow> depth p | None \<Rightarrow> 0) + 1,
                  linearIndex = int i,
                  summary = makeSummaryFromUserText (userText (pairs ! i)) 20,
                  node_userHtml = [], node_assistantHtml = []\<rparr> ns) (last_aligned i) = Some p
         \<and> aligned_table pairs (i + 1)
             (fmupd (last_aligned i) (p\<lparr>children := children p @ [align_id i]\<rparr>)
               (fmupd (align_id i)
                 \<lparr>node_id = align_id i, parentId = last_aligned i, children = [],
                  depth = (case fmlookup ns (last_aligned i) of Some p \<Rightarrow> depth p | None \<Rightarrow> 0) + 1,
                  linearIndex = int i,
                  summary = makeSummaryFromUserText (userText (pairs ! i)) 20,
                  node_userHtml = [], node_assistantHtml = []\<rparr> ns))"
proof -
  define p where "p = (if i = 0 then aligned_root 0 else aligned_node pairs i (i - 1))"
  have lp: "fmlookup ns (last_aligned i) = Some p"
  proof (cases "i = 0")
    case True
    with inv show ?thesis by (simp add: aligned_table_def last_aligned_def p_def)
  next
    case False
    then have "i - 1 < i" by simp
    from aligned_tableD [OF inv this] False show ?thesis
      by (simp add: last_aligned_def p_def)
  qed
  have dp: "depth p = i"
    by (auto simp: p_def aligned_root_def root_node_def aligned_node_def)
  have ne: "last_aligned i \<noteq> align_id i"
    using align_id_not_root [of i] align_id_inj [of "i - 1" i]
    by (auto simp: last_aligned_def)
  define nd where "nd = \<lparr>node_id = align_id i, parentId = last_aligned i, children = [],
                  depth = (case fmlookup ns (last_aligned i) of Some p \<Rightarrow> depth p | None \<Rightarrow> 0) + 1,
                  linearIndex = int i,
                  summary = makeSummaryFromUserText (userText (pairs ! i)) 20,
                  node_userHtml = [], node_assistantHtml = []\<rparr>"
  define ns2 where "ns2 = fmupd (last_aligned i) (p\<lparr>children := children p @ [align_id i]\<rparr>)
               (fmupd (align_id i) nd ns)"
  have l1: "fmlookup (fmupd (align_id i) nd ns) (last_aligned i) = Some p"
    using ne lp by simp
  have dom: "fmdom' ns2 = insert ROOT_ID (align_id ` {..<i + 1})"
  proof -
    from inv have "fmdom' ns = insert ROOT_ID (align_id ` {..<i})"
      by (simp add: aligned_table_def lessThan_atLeast0)
    moreover have "last_aligned i \<in> insert ROOT_ID (align_id ` {..<i})"
      by (cases "i = 0") (auto simp: last_aligned_def)
    moreover have "{..<i + 1} = insert i {..<i}" by auto
    ultimately show ?thesis by (auto simp: ns2_def)
  qed
  have root: "fmlookup ns2 ROOT_ID = Some (aligned_root (i + 1))"
  proof (cases "i = 0")
    case True
    then show ?thesis
      using align_id_not_root [of 0]
      by (simp add: ns2_def last_aligned_def p_def aligned_root_def)
  next
    case False
    with inv show ?thesis
      using align_id_not_root [of i] align_id_not_root [of "i - 1"]
      by (auto simp: ns2_def last_aligned_def aligned_table_def aligned_root_def)
  qed
  have nodes: "fmlookup ns2 (align_id j) = Some (aligned_node pairs (i + 1) j)" if j: "j < i + 1" for j
  proof (cases "j = i")
    case True
    with ne lp dp show ?thesis
      by (auto simp: ns2_def nd_def aligned_node_def last_aligned_def)
  next
    case ji: False
    with j have j': "j < i" by simp
    note old = aligned_tableD [OF inv j']
    show ?thesis
    proof (cases "j = i - 1")
      case True
      with j' have "last_aligned i = align_id j" by (simp add: last_aligned_def)
      moreover from True j' have "p = aligned_node pairs i j" by (simp add: p_def)
      ultimately show ?thesis using True j'
        by (simp add: ns2_def aligned_node_def)
    next
      case False
      with j' have "last_aligned i \<noteq> align_id j"
        using align_id_not_root [of j] align_id_inj [of "i - 1" j]
        by (auto simp: last_aligned_def)
      moreover have "align_id i \<noteq> align_id j" using ji align_id_inj by blast
      moreover from False j' have "j + 1 < i" by simp
      ultimately show ?thesis using old
        by (simp add: ns2_def aligned_node_def)
    qed
  qed
  from dom root nodes have "aligned_table pairs (i + 1) ns2" by (rule aligned_tableI)
  with l1 show ?thesis unfolding ns2_def nd_def by blast
qed

lemma last_aligned_Suc: "last_aligned (Suc i) = align_id i"
  by (simp add: last_aligned_def)

lemma align_loop_builds:
  "aligned_table pairs i ns \<Longrightarrow> i \<le> length pairs \<Longrightarrow>
   \<exists>ns'. align_loop pairs i ns (last_aligned i) = Some ns' \<and> aligned_table pairs (length pairs) ns'"
proof (induction "length pairs - i" arbitrary: i ns)
  case 0
  then have "i = length pairs" by simp
  with "0.prems" show ?case by (subst align_loop.simps) simp
next
  case (Suc d)
  then have i: "i < length pairs" by simp
  from aligned_table_step [OF Suc.prems(1) i] obtain p where
    p: "fmlookup (fmupd (align_id i)
                 \<lparr>node_id = align_id i, parentId = last_aligned i, children = [],
                  depth = (case fmlookup ns (last_aligned i) of Some p \<Rightarrow> depth p | None \<Rightarrow> 0) + 1,
                  linearIndex = int i,
                  summary = makeSummaryFromUserText (userText (pairs ! i)) 20,
                  node_userHtml = [], node_assistantHtml = []\<rparr> ns) (last_aligned i) = Some p"
    and t: "aligned_table pairs (i + 1)
             (fmupd (last_aligned i) (p\<lparr>children := children p @ [align_id i]\<rparr>)
               (fmupd (align_id i)
                 \<lparr>node_id = align_id i, parentId = last_aligned i, children = [],
                  depth = (case fmlookup ns (last_aligned i) of Some p \<Rightarrow> depth p | None \<Rightarrow> 0) + 1,
                  linearIndex = int i,
                  summary = makeSummaryFromUserText (userText (pairs ! i)) 20,
                  node_userHtml = [], node_assistantHtml = []\<rparr> ns))"
    by blast
  from Suc.hyps(2) have d: "d = length pairs - (i + 1)" by simp
  from i have le: "i + 1 \<le> length pairs" by simp
  from Suc.hyps(1) [OF d t le] obtain ns' where
    "align_loop pairs (i + 1)
       (fmupd (last_aligned i) (p\<lparr>children := children p @ [align_id i]\<rparr>)
               (fmupd (align_id i)
                 \<lparr>node_id = align_id i, parentId = last_aligned i, children = [],
                  depth = (case fmlookup ns (last_aligned i) of Some p \<Rightarrow> depth p | None \<Rightarrow> 0) + 1,
                  linearIndex = int i,
                  summary = makeSummaryFromUserText (userText (pairs ! i)) 20,
                  node_userHtml = [], node_assistantHtml = []\<rparr> ns))
       (last_aligned (i + 1)) = Some ns'"
    and "aligned_table pairs (length pairs) ns'"
    by blast
  with i p show ?case
    by (subst align_loop.simps) (simp add: Let_def last_aligned_Suc del: fmupd_lookup)
qed

lemma aligned_table_0: "aligned_table pairs 0 (fmupd ROOT_ID root_node fmempty)"
  by (simp add: aligned_table_def aligned_root_def root_node_def)

lemma distinct_align_ids: "distinct (ROOT_ID # map align_id [0 ..< n])"
proof -
  have "inj_on align_id (set [0 ..< n])" by (auto intro: inj_onI dest: align_id_inj)
  then have "distinct (map align_id [0 ..< n])" by (simp add: distinct_map)
  moreover have "ROOT_ID \<notin> set (map align_id [0 ..< n])"
    by (metis align_id_not_root imageE set_map)
  ultimately show ?thesis by simp
qed

text \<open>
  C3. Aligner result shape. For every conversation key and every sequence of pairs,
  \<open>buildAlignedLinearTreeFromPairs\<close> returns a state whose table holds exactly the root
  and one node per pair, under pairwise different ids: a single chain in which node \<open>i\<close>
  is the only child of node \<open>i - 1\<close> and node \<open>0\<close> the only child of the root, with linear
  index \<open>i\<close>, depth \<open>i + 1\<close> and the summary of pair \<open>i\<close>. The active id is the last node
  of the chain (the root when there are no pairs), \<open>seenLinearCount\<close> is the number of
  pairs and \<open>collapsedIds\<close> is empty.
\<close>

theorem align_builds_linear_chain:
  "\<exists>ns. buildAlignedLinearTreeFromPairs key pairs =
           Some \<lparr>convoKey = key, seenLinearCount = length pairs,
                 activeId = (if pairs = [] then ROOT_ID else align_id (length pairs - 1)),
                 nodes = ns, collapsedIds = Some fmempty\<rparr>
       \<and> aligned_table pairs (length pairs) ns
       \<and> distinct (ROOT_ID # map align_id [0 ..< length pairs])"
proof -
  from align_loop_builds [OF aligned_table_0, of pairs] obtain ns where
    "align_loop pairs 0 (fmupd ROOT_ID root_node fmempty) ROOT_ID = Some ns"
    "aligned_table pairs (length pairs) ns"
    by (auto simp: last_aligned_def)
  then show ?thesis
    using distinct_align_ids [of "length pairs"]
    by (auto simp: buildAlignedLinearTreeFromPairs_def)
qed


subsection \<open>The reconciler\<close>

lemma reconcile_loop_chain:
  "i < length pairs \<Longrightarrow> active_parent st = Some p \<Longrightarrow>
   fmlookup (nodes st) (node_id p) = Some p \<Longrightarrow> fresh_ids rnd st i (length pairs) \<Longrightarrow>
   \<exists>st'. reconcile_loop rnd pairs i st = Some st'
     \<and> seenLinearCount st' = length pairs
     \<and> activeId st' = new_id (length pairs - 1) (rnd (length pairs - 1))
     \<and> convoKey st' = convoKey st \<and> collapsedIds st' = collapsedIds st
     \<and> fmlookup (nodes st') (node_id p)
         = Some (p\<lparr>children := children p @ [new_id i (rnd i)]\<rparr>)
     \<and> (\<forall>j. i \<le> j \<and> j < length pairs \<longrightarrow>
           fmlookup (nodes st') (new_id j (rnd j)) = Some (appended_node rnd pairs p i j))
     \<and> (\<forall>k. k \<noteq> node_id p \<and> (\<forall>j. i \<le> j \<and> j < length pairs \<longrightarrow> k \<noteq> new_id j (rnd j)) \<longrightarrow>
           fmlookup (nodes st') k = fmlookup (nodes st) k)"
proof (induction rnd pairs i st arbitrary: p rule: reconcile_loop.induct)
  case (1 rnd pairs i st)
  note i = "1.prems"(1) and ap = "1.prems"(2) and lp = "1.prems"(3) and fr = "1.prems"(4)
  let ?new = "new_id i (rnd i)"
  define nd where "nd = \<lparr>node_id = ?new, parentId = node_id p, children = [],
                             depth = depth p + 1, linearIndex = int i,
                             summary = makeSummaryFromUserText (userText (pairs ! i)) 20,
                             node_userHtml = userHtml (pairs ! i),
                             node_assistantHtml = assistantHtml (pairs ! i)\<rparr>"
  define st1 where "st1 = st\<lparr>activeId := ?new, seenLinearCount := i + 1,
              nodes := fmupd (node_id p) (p\<lparr>children := children p @ [?new]\<rparr>)
                         (fmupd ?new nd (nodes st))\<rparr>"
  have app: "appendUnderActive st (pairs ! i) i (rnd i) = Some st1"
    unfolding st1_def nd_def by (rule appendUnderActive_Some [OF ap])
  from fr i have fi: "fmlookup (nodes st) ?new = None" by (simp add: fresh_ids_def)
  with lp have ne: "node_id p \<noteq> ?new" by auto
  have unfold: "reconcile_loop rnd pairs i st = reconcile_loop rnd pairs (i + 1) st1"
    using i app by (subst reconcile_loop.simps) simp
  show ?case
  proof (cases "i + 1 < length pairs")
    case False
    with i have len: "length pairs = i + 1" by simp
    have r: "reconcile_loop rnd pairs i st = Some st1"
      using unfold False by (subst (asm) (2) reconcile_loop.simps) simp
    have nd: "nd = appended_node rnd pairs p i i"
      using False by (simp add: nd_def appended_node_def)
    have A: "seenLinearCount st1 = length pairs" by (simp add: st1_def len)
    have B: "activeId st1 = new_id (length pairs - 1) (rnd (length pairs - 1))"
      by (simp add: st1_def len)
    have C: "convoKey st1 = convoKey st" "collapsedIds st1 = collapsedIds st"
      by (simp_all add: st1_def)
    have D: "fmlookup (nodes st1) (node_id p) = Some (p\<lparr>children := children p @ [?new]\<rparr>)"
      by (simp add: st1_def)
    have E: "fmlookup (nodes st1) (new_id j (rnd j)) = Some (appended_node rnd pairs p i j)"
      if "i \<le> j \<and> j < length pairs" for j
    proof -
      from that len have "j = i" by simp
      with ne nd show ?thesis by (simp add: st1_def)
    qed
    have F: "fmlookup (nodes st1) k = fmlookup (nodes st) k"
      if "k \<noteq> node_id p \<and> (\<forall>j. i \<le> j \<and> j < length pairs \<longrightarrow> k \<noteq> new_id j (rnd j))" for k
    proof -
      from that i have "k \<noteq> ?new" "k \<noteq> node_id p" by auto
      then show ?thesis by (simp add: st1_def)
    qed
    from r A B C D E F show ?thesis by (intro exI [of _ st1]) simp
  next
    case True
    have ap1: "active_parent st1 = Some nd"
      using ne by (simp add: active_parent_def table_get_def st1_def)
    have lp1: "fmlookup (nodes st1) (node_id nd) = Some nd"
      using ne by (simp add: st1_def nd_def)
    have fr1: "fresh_ids rnd st1 (i + 1) (length pairs)"
      unfolding fresh_ids_def
    proof (intro allI impI)
      fix j assume j: "i + 1 \<le> j \<and> j < length pairs"
      with fr have "fmlookup (nodes st) (new_id j (rnd j)) = None" by (simp add: fresh_ids_def)
      moreover from this lp have "new_id j (rnd j) \<noteq> node_id p" by auto
      moreover from j have "new_id j (rnd j) \<noteq> ?new" using new_id_inj [of j "rnd j" i "rnd i"] by auto
      ultimately show "fmlookup (nodes st1) (new_id j (rnd j)) = None"
        by (simp add: st1_def)
    qed
    from "1.IH" [OF i app True ap1 lp1 fr1] obtain st' where
      r: "reconcile_loop rnd pairs (i + 1) st1 = Some st'"
      and s: "seenLinearCount st' = length pairs"
      and a: "activeId st' = new_id (length pairs - 1) (rnd (length pairs - 1))"
      and c: "convoKey st' = convoKey st1" "collapsedIds st' = collapsedIds st1"
      and pn: "fmlookup (nodes st') (node_id nd)
         = Some (nd\<lparr>children := children nd @ [new_id (i + 1) (rnd (i + 1))]\<rparr>)"
      and ch: "\<forall>j. i + 1 \<le> j \<and> j < length pairs \<longrightarrow>
           fmlookup (nodes st') (new_id j (rnd j)) = Some (appended_node rnd pairs nd (i + 1) j)"
      and ot: "\<forall>k. k \<noteq> node_id nd \<and> (\<forall>j. i + 1 \<le> j \<and> j < length pairs \<longrightarrow> k \<noteq> new_id j (rnd j)) \<longrightarrow>
           fmlookup (nodes st') k = fmlookup (nodes st1) k"
      by blast
    have nid: "node_id nd = ?new" by (simp add: nd_def)
    have p_fresh: "\<And>j. i \<le> j \<and> j < length pairs \<Longrightarrow> node_id p \<noteq> new_id j (rnd j)"
      using fr lp by (auto simp: fresh_ids_def)
    have 1: "fmlookup (nodes st') (node_id p) = Some (p\<lparr>children := children p @ [?new]\<rparr>)"
    proof -
      have "fmlookup (nodes st') (node_id p) = fmlookup (nodes st1) (node_id p)"
        using ot ne nid p_fresh by auto
      then show ?thesis by (simp add: st1_def)
    qed
    have 2: "fmlookup (nodes st') (new_id j (rnd j)) = Some (appended_node rnd pairs p i j)"
      if j: "i \<le> j \<and> j < length pairs" for j
    proof (cases "j = i")
      case True
      with pn nid show ?thesis
        using \<open>i + 1 < length pairs\<close> by (simp add: nd_def appended_node_def)
    next
      case False
      with j have j': "i + 1 \<le> j \<and> j < length pairs" by simp
      with ch have "fmlookup (nodes st') (new_id j (rnd j)) = Some (appended_node rnd pairs nd (i + 1) j)"
        by blast
      moreover have "appended_node rnd pairs nd (i + 1) j = appended_node rnd pairs p i j"
        using j' False by (auto simp: appended_node_def nd_def)
      ultimately show ?thesis by simp
    qed
    have 3: "fmlookup (nodes st') k = fmlookup (nodes st) k"
      if k: "k \<noteq> node_id p \<and> (\<forall>j. i \<le> j \<and> j < length pairs \<longrightarrow> k \<noteq> new_id j (rnd j))" for k
    proof -
      from k i have "k \<noteq> ?new" by auto
      moreover from k have "\<forall>j. i + 1 \<le> j \<and> j < length pairs \<longrightarrow> k \<noteq> new_id j (rnd j)" by auto
      ultimately have "fmlookup (nodes st') k = fmlookup (nodes st1) k" using ot nid by auto
      moreover from k have "node_id p \<noteq> k" by auto
      ultimately show ?thesis using \<open>k \<noteq> ?new\<close> by (simp add: st1_def)
    qed
    have "convoKey st' = convoKey st" "collapsedIds st' = collapsedIds st"
      using c by (simp_all add: st1_def)
    with unfold r s a 1 2 3 show ?thesis by (intro exI [of _ st']) simp
  qed
qed

text \<open>
  Where \<open>appendUnderActive\<close> has a node to append under. Let the page show more pairs
  than \<open>seenLinearCount\<close>, let \<open>p\<close> be the node stored under the active id, or the root
  when the active id is neither a key of the table nor an inherited name, let \<open>p\<close> be
  stored under its own id, and let the ids drawn for the new indices be fresh. Then
  reconciling returns a state in which, for each index \<open>i\<close> from \<open>seenLinearCount\<close> to the
  last pair, there is one new node with linear index \<open>i\<close> and the summary and markup of
  pair \<open>i\<close>; the first new node is appended as last child of \<open>p\<close>, each later one is the
  child of the node appended just before it (which was the active node at that moment);
  the last new node is the active id, \<open>seenLinearCount\<close> is the number of pairs, and
  nothing else in the state changes.
\<close>

lemma reconcile_appends_under_parent:
  assumes "seenLinearCount st < length pairs"
    and "active_parent st = Some p"
    and "fmlookup (nodes st) (node_id p) = Some p"
    and "fresh_ids rnd st (seenLinearCount st) (length pairs)"
  shows "\<exists>st'. reconcile rnd st pairs = Some st'
     \<and> seenLinearCount st' = length pairs
     \<and> activeId st' = new_id (length pairs - 1) (rnd (length pairs - 1))
     \<and> convoKey st' = convoKey st \<and> collapsedIds st' = collapsedIds st
     \<and> fmlookup (nodes st') (node_id p)
         = Some (p\<lparr>children := children p @ [new_id (seenLinearCount st) (rnd (seenLinearCount st))]\<rparr>)
     \<and> (\<forall>j. seenLinearCount st \<le> j \<and> j < length pairs \<longrightarrow>
           fmlookup (nodes st') (new_id j (rnd j))
             = Some (appended_node rnd pairs p (seenLinearCount st) j))
     \<and> (\<forall>k. k \<noteq> node_id p
             \<and> (\<forall>j. seenLinearCount st \<le> j \<and> j < length pairs \<longrightarrow> k \<noteq> new_id j (rnd j)) \<longrightarrow>
           fmlookup (nodes st') k = fmlookup (nodes st) k)"
proof -
  from assms(1) have "reconcile rnd st pairs = reconcile_loop rnd pairs (seenLinearCount st) st"
    by (simp add: reconcile_def)
  with reconcile_loop_chain [OF assms] show ?thesis by simp
qed

lemma reconcile_appends_under_parent_example:
  "\<exists>st'. reconcile (\<lambda>i. ''ab'') (freshTree ''c_1'') [example_pair, example_pair] = Some st'
        \<and> seenLinearCount st' = 2 \<and> activeId st' = ''n_1_ab''
        \<and> fmlookup (nodes st') ROOT_ID = Some (root_node\<lparr>children := [''n_0_ab'']\<rparr>)"
proof -
  have 1: "seenLinearCount (freshTree ''c_1'') < length [example_pair, example_pair]"
    by (simp add: freshTree_def)
  have 2: "active_parent (freshTree ''c_1'') = Some root_node"
    by (simp add: freshTree_def active_parent_def table_get_def)
  have 3: "fmlookup (nodes (freshTree ''c_1'')) (node_id root_node) = Some root_node"
    by (simp add: freshTree_def root_node_def)
  have 4: "fresh_ids (\<lambda>i. ''ab'') (freshTree ''c_1'') (seenLinearCount (freshTree ''c_1''))
             (length [example_pair, example_pair])"
    by (simp add: fresh_ids_def freshTree_def new_id_def ROOT_ID_def)
  have ids: "new_id 0 ''ab'' = ''n_0_ab''" "new_id (Suc 0) ''ab'' = ''n_1_ab''"
    by (simp_all add: new_id_def show_nat.simps digit_char_def)
  from reconcile_appends_under_parent [OF 1 2 3 4] obtain st' where
    "reconcile (\<lambda>i. ''ab'') (freshTree ''c_1'') [example_pair, example_pair] = Some st'"
    "seenLinearCount st' = length [example_pair, example_pair]"
    "activeId st' = new_id (length [example_pair, example_pair] - 1) ''ab''"
    "fmlookup (nodes st') (node_id root_node)
       = Some (root_node\<lparr>children := children root_node
                 @ [new_id (seenLinearCount (freshTree ''c_1'')) ''ab'']\<rparr>)"
    by blast
  then show ?thesis
    by (intro exI [of _ st']) (simp add: ids freshTree_def root_node_def)
qed

lemma active_parent_absent:
  "fmlookup (nodes st) (activeId st) = None \<Longrightarrow> activeId st \<notin> set inherited_names \<Longrightarrow>
   active_parent st = fmlookup (nodes st) ROOT_ID"
  by (simp add: active_parent_def table_get_def)

lemma active_parent_inherited:
  "fmlookup (nodes st) (activeId st) = None \<Longrightarrow> activeId st \<in> set inherited_names \<Longrightarrow>
   active_parent st = None"
  by (simp add: active_parent_def table_get_def)

text \<open>
  C2. Reconciler contract: reconciling is to append the new nodes under the node named by
  the active id, or under the root when that id does not resolve. \<open>appendUnderActive\<close>
  does not fall back to the root when the active id is no key of the table but names an
  inherited property. In the example state with the active id \<open>constructor\<close>, which is no
  key of its table, while the root is, with two turns seen and three pairs on the page,
  the first call of \<open>appendUnderActive\<close> throws, and so does the reconciling: no node is
  appended under the root.
\<close>

theorem reconcile_throws_at_inherited_active_id:
  "fmlookup (nodes inherited_active) (activeId inherited_active) = None
   \<and> fmlookup (nodes inherited_active) ROOT_ID \<noteq> None
   \<and> seenLinearCount inherited_active < length [example_pair, example_pair, example_pair]
   \<and> appendUnderActive inherited_active example_pair 2 ''ab'' = None
   \<and> reconcile (\<lambda>i. ''ab'') inherited_active [example_pair, example_pair, example_pair] = None"
proof -
  have a: "fmlookup (nodes inherited_active) (activeId inherited_active) = None"
    by (simp add: inherited_active_def two_branches_def ROOT_ID_def)
  have i: "activeId inherited_active \<in> set inherited_names"
    by (simp add: inherited_active_def inherited_names_def)
  have r: "fmlookup (nodes inherited_active) ROOT_ID \<noteq> None"
    by (simp add: inherited_active_def two_branches_def)
  have s: "seenLinearCount inherited_active = 2"
    by (simp add: inherited_active_def two_branches_def)
  have p: "appendUnderActive inherited_active pair idx rnd = None" for pair idx rnd
    by (simp add: appendUnderActive_def active_parent_inherited [OF a i])
  have "reconcile (\<lambda>i. ''ab'') inherited_active [example_pair, example_pair, example_pair] = None"
    by (simp add: reconcile_def s, subst reconcile_loop.simps) (simp add: p)
  with a r s p show ?thesis by simp
qed

subsection \<open>Persistence\<close>

lemma strip_fields:
  "convoKey (stripTreeForPersist st) = convoKey st"
  "seenLinearCount (stripTreeForPersist st) = seenLinearCount st"
  "activeId (stripTreeForPersist st) = activeId st"
  "collapsedIds (stripTreeForPersist st) = Some (collapsed_or_empty st)"
  "fmlookup (nodes (stripTreeForPersist st)) k = map_option strip_node (fmlookup (nodes st) k)"
  by (simp_all add: stripTreeForPersist_def)

lemma strip_node_fields:
  "node_id (strip_node n) = node_id n" "parentId (strip_node n) = parentId n"
  "children (strip_node n) = children n" "depth (strip_node n) = depth n"
  "linearIndex (strip_node n) = linearIndex n" "summary (strip_node n) = summary n"
  "node_userHtml (strip_node n) = []" "node_assistantHtml (strip_node n) = []"
  by (simp_all add: strip_node_def)

lemma load_after_save:
  assumes "json_round_trips parse stringify x" and "collapsedIds x \<noteq> None"
  shows "loadTree parse (saveTree stringify False ls x) (convoKey x) = Some x"
  using assms
  by (auto simp: json_round_trips_def loadTree_def saveTree_def safeJsonParse_def)

text \<open>
  What \<open>saveTree\<close> and \<open>loadTree\<close> add to the platform's JSON functions. Provided
  these round-trip the stripped snapshot, saving the stripped state and loading it again
  under the same conversation key yields the stripped state itself: the null check and
  the defaulting of \<open>collapsedIds\<close> in \<open>loadTree\<close> change nothing. The stripped state has
  the conversation key, \<open>seenLinearCount\<close> and active id of the state, its
  \<open>collapsedIds\<close> (empty when the state had none), and for every node the same id,
  parent id, children, depth, linear index and summary, with both markup fields empty.
\<close>

lemma load_after_save_stripped:
  assumes "json_round_trips parse stringify (stripTreeForPersist st)"
  shows "loadTree parse (saveTree stringify False ls (stripTreeForPersist st)) (convoKey st)
           = Some (stripTreeForPersist st)
       \<and> convoKey (stripTreeForPersist st) = convoKey st
       \<and> seenLinearCount (stripTreeForPersist st) = seenLinearCount st
       \<and> activeId (stripTreeForPersist st) = activeId st
       \<and> collapsedIds (stripTreeForPersist st) = Some (collapsed_or_empty st)
       \<and> fmdom' (nodes (stripTreeForPersist st)) = fmdom' (nodes st)
       \<and> (\<forall>k n. fmlookup (nodes st) k = Some n \<longrightarrow>
             (\<exists>n'. fmlookup (nodes (stripTreeForPersist st)) k = Some n'
                \<and> node_id n' = node_id n \<and> parentId n' = parentId n
                \<and> children n' = children n \<and> depth n' = depth n
                \<and> linearIndex n' = linearIndex n \<and> summary n' = summary n
                \<and> node_userHtml n' = [] \<and> node_assistantHtml n' = []))"
proof -
  have "loadTree parse (saveTree stringify False ls (stripTreeForPersist st))
          (convoKey (stripTreeForPersist st)) = Some (stripTreeForPersist st)"
    using assms by (rule load_after_save) (simp add: strip_fields)
  moreover have "fmdom' (nodes (stripTreeForPersist st)) = fmdom' (nodes st)"
    by (simp add: stripTreeForPersist_def)
  ultimately show ?thesis
    by (simp add: strip_fields strip_node_fields)
qed

subsection \<open>Walking upward in a well-formed tree\<close>

lemma deeper_than_Nil [simp]: "deeper_than st d []"
  by (simp add: deeper_than_def)

lemma deeper_than_Cons:
  "deeper_than st (Suc d) g \<Longrightarrow> fmlookup (nodes st) c = Some n \<Longrightarrow> depth n = Suc d \<Longrightarrow>
   deeper_than st d (c # g)"
  by (auto simp: deeper_than_def intro: Suc_lessD)

lemma deeper_than_notin:
  "deeper_than st d g \<Longrightarrow> fmlookup (nodes st) c = Some n \<Longrightarrow> depth n = d \<Longrightarrow> c \<notin> set g"
  by (auto simp: deeper_than_def)

lemma wf_depth0_root:
  assumes "wf_tree st" and "fmlookup (nodes st) c = Some n" and "depth n = 0"
  shows "c = ROOT_ID"
  using wf_nonroot_depth [OF assms(1,2)] assms(3) by auto

lemma wf_root_depth:
  assumes "wf_tree st" and "fmlookup (nodes st) ROOT_ID = Some n"
  shows "depth n = 0"
  using wf_rootD [OF assms(1)] assms(2) by auto

lemma wf_nonempty:
  "wf_tree st \<Longrightarrow> fmlookup (nodes st) c = Some n \<Longrightarrow> c \<noteq> []"
  using wf_emptyD by fastforce

text \<open>One step upward from a node that is not the root.\<close>

lemma wf_step_up:
  assumes wf: "wf_tree st" and c: "fmlookup (nodes st) c = Some n" and d: "depth n = Suc d"
  shows "c \<noteq> ROOT_ID \<and> c \<noteq> [] \<and> parentId n \<noteq> []
       \<and> (\<exists>p. fmlookup (nodes st) (parentId n) = Some p \<and> depth p = d \<and> c \<in> set (children p))"
proof -
  from wf_root_depth [OF wf] c d have nr: "c \<noteq> ROOT_ID" by auto
  from wf_parentD [OF wf c nr] d obtain p where
    p: "fmlookup (nodes st) (parentId n) = Some p" "depth p = d" "c \<in> set (children p)" by auto
  with nr wf_nonempty [OF wf c] wf_nonempty [OF wf p(1)] show ?thesis by blast
qed

lemma up_loop_chain:
  assumes wf: "wf_tree st"
  shows "fmlookup (nodes st) c = Some n \<Longrightarrow> depth n = d \<Longrightarrow> deeper_than st d g \<Longrightarrow>
         up_loop (nodes st) g up (Some c) = up @ anc_chain d (nodes st) c"
proof (induction d arbitrary: c n g up)
  case 0
  from wf_depth0_root [OF wf "0.prems"(1,2)] show ?case
    by (subst up_loop.simps) simp
next
  case (Suc d)
  from wf_step_up [OF wf Suc.prems(1,2)] obtain p where
    nr: "c \<noteq> ROOT_ID" "c \<noteq> []" and p: "fmlookup (nodes st) (parentId n) = Some p" "depth p = d"
    by blast
  from deeper_than_notin [OF Suc.prems(3,1,2)] have ng: "c \<notin> set g" .
  from deeper_than_Cons [OF Suc.prems(3,1,2)] have dt: "deeper_than st d (c # g)" .
  from Suc.IH [OF p dt, of "up @ [c]"] nr ng Suc.prems(1) show ?case
    by (subst up_loop.simps) simp
qed

lemma pathToRoot_loop_chain:
  assumes wf: "wf_tree st"
  shows "fmlookup (nodes st) c = Some n \<Longrightarrow> depth n = d \<Longrightarrow> deeper_than st d g \<Longrightarrow>
         map node_id (pathToRoot_loop st g out c) = map node_id out @ anc_chain d (nodes st) c"
proof (induction d arbitrary: c n g out)
  case 0
  from wf_depth0_root [OF wf "0.prems"(1,2)] show ?case
    by (subst pathToRoot_loop.simps) simp
next
  case (Suc d)
  from wf_step_up [OF wf Suc.prems(1,2)] obtain p where
    nr: "c \<noteq> ROOT_ID" "c \<noteq> []" and p: "fmlookup (nodes st) (parentId n) = Some p" "depth p = d"
    by blast
  from deeper_than_notin [OF Suc.prems(3,1,2)] have ng: "c \<notin> set g" .
  from deeper_than_Cons [OF Suc.prems(3,1,2)] have dt: "deeper_than st d (c # g)" .
  from wf_idD [OF wf Suc.prems(1)] have "node_id n = c" .
  with Suc.IH [OF p dt, of "out @ [n]"] nr ng Suc.prems(1) show ?case
    by (subst pathToRoot_loop.simps) simp
qed

lemma path_ids_chain:
  assumes "wf_tree st" and "fmlookup (nodes st) (activeId st) = Some a"
  shows "path_ids st = ROOT_ID # rev (anc_chain (depth a) (nodes st) (activeId st))"
proof -
  have "map node_id (pathToRoot_loop st [] [] (activeId st))
          = anc_chain (depth a) (nodes st) (activeId st)"
    using pathToRoot_loop_chain [OF assms refl, of "[]" "[]"] by simp
  then have "map node_id (rev (pathToRoot_loop st [] [] (activeId st)))
          = rev (anc_chain (depth a) (nodes st) (activeId st))"
    by (metis rev_map)
  then show ?thesis by (simp add: path_ids_def pathToRoot_def)
qed

text \<open>The chain above a node at depth \<open>d\<close> has one node at every depth from \<open>d\<close> down to \<open>1\<close>.\<close>

lemma anc_chain_depths:
  assumes wf: "wf_tree st"
  shows "fmlookup (nodes st) c = Some n \<Longrightarrow> depth n = d \<Longrightarrow>
         length (anc_chain d (nodes st) c) = d
       \<and> (\<forall>k<d. \<exists>m. fmlookup (nodes st) (anc_chain d (nodes st) c ! k) = Some m
                     \<and> depth m = d - k)"
proof (induction d arbitrary: c n)
  case 0
  then show ?case by simp
next
  case (Suc d)
  from wf_step_up [OF wf Suc.prems(1,2)] obtain p where
    nr: "c \<noteq> ROOT_ID" and p: "fmlookup (nodes st) (parentId n) = Some p" "depth p = d"
    by blast
  from Suc.IH [OF p] have len: "length (anc_chain d (nodes st) (parentId n)) = d"
    and ih: "\<forall>k<d. \<exists>m. fmlookup (nodes st) (anc_chain d (nodes st) (parentId n) ! k) = Some m
                     \<and> depth m = d - k"
    by auto
  have eq: "anc_chain (Suc d) (nodes st) c = c # anc_chain d (nodes st) (parentId n)"
    using nr Suc.prems(1) by simp
  have "\<exists>m. fmlookup (nodes st) (anc_chain (Suc d) (nodes st) c ! k) = Some m
                     \<and> depth m = Suc d - k" if "k < Suc d" for k
  proof (cases k)
    case 0
    with eq Suc.prems show ?thesis by simp
  next
    case (Suc k')
    with that have "k' < d" by simp
    with ih Suc eq show ?thesis by simp
  qed
  with eq len show ?case by simp
qed

text \<open>The chain is closed under taking parents, up to the root.\<close>

lemma anc_chain_parent:
  assumes wf: "wf_tree st"
  shows "fmlookup (nodes st) c = Some n \<Longrightarrow> depth n = d \<Longrightarrow>
         x \<in> set (anc_chain d (nodes st) c) \<Longrightarrow>
         \<exists>m. fmlookup (nodes st) x = Some m \<and> x \<noteq> ROOT_ID
            \<and> parentId m \<in> set (ROOT_ID # anc_chain d (nodes st) c)"
proof (induction d arbitrary: c n)
  case 0
  then show ?case by simp
next
  case (Suc d)
  from wf_step_up [OF wf Suc.prems(1,2)] obtain p where
    nr: "c \<noteq> ROOT_ID" and p: "fmlookup (nodes st) (parentId n) = Some p" "depth p = d"
    by blast
  have eq: "anc_chain (Suc d) (nodes st) c = c # anc_chain d (nodes st) (parentId n)"
    using nr Suc.prems(1) by simp
  show ?case
  proof (cases "x = c")
    case True
    have "parentId n \<in> set (ROOT_ID # anc_chain d (nodes st) (parentId n))"
    proof (cases d)
      case 0
      with wf_depth0_root [OF wf p(1)] p(2) show ?thesis by simp
    next
      case (Suc d')
      from wf_step_up [OF wf p(1)] p(2) Suc have "parentId n \<noteq> ROOT_ID" by blast
      with Suc show ?thesis by simp
    qed
    with True Suc.prems(1) nr eq show ?thesis by auto
  next
    case False
    with Suc.prems(3) eq have "x \<in> set (anc_chain d (nodes st) (parentId n))" by simp
    from Suc.IH [OF p this] eq show ?thesis by auto
  qed
qed

lemma anc_chain_head:
  "fmlookup ns c = Some n \<Longrightarrow> c \<noteq> ROOT_ID \<Longrightarrow> 0 < d \<Longrightarrow> c \<in> set (anc_chain d ns c)"
  by (cases d) simp_all


subsection \<open>What focusing marks as collapsed\<close>

lemma mark_children_lookup:
  "fmlookup (mark_children P cs m) x
     = (if x \<in> set cs \<and> P x then Some True else fmlookup m x)"
  unfolding mark_children_def
  by (induction cs arbitrary: m) auto

lemma collapse_path_loop_marked:
  "fmlookup (collapse_path_loop ns path i m) x = Some True \<longleftrightarrow>
     fmlookup m x = Some True
   \<or> (\<exists>j q. i \<le> j \<and> j + 1 < length path \<and> fmlookup ns (path ! j) = Some q
            \<and> x \<in> set (children q) \<and> x \<noteq> path ! (j + 1))"
proof (induction ns path i m rule: collapse_path_loop.induct)
  case (1 ns path i m)
  show ?case
  proof (cases "i + 1 < length path")
    case False
    then show ?thesis by (subst collapse_path_loop.simps) auto
  next
    case True
    define m' where "m' = (case fmlookup ns (path ! i) of
                   None \<Rightarrow> m
                 | Some parent \<Rightarrow>
                     if children parent = [] then m
                     else mark_children (\<lambda>c. c \<noteq> path ! (i + 1)) (children parent) m)"
    have step: "fmlookup m' x = Some True \<longleftrightarrow>
        fmlookup m x = Some True
      \<or> (\<exists>q. fmlookup ns (path ! i) = Some q \<and> x \<in> set (children q) \<and> x \<noteq> path ! (i + 1))"
      by (auto simp: m'_def mark_children_lookup split: option.splits)
    have unfold: "collapse_path_loop ns path i m = collapse_path_loop ns path (i + 1) m'"
      using True by (subst collapse_path_loop.simps) (simp add: m'_def Let_def cong: option.case_cong if_cong)
    have ih: "fmlookup (collapse_path_loop ns path (i + 1) m') x = Some True \<longleftrightarrow>
        fmlookup m' x = Some True
      \<or> (\<exists>j q. i + 1 \<le> j \<and> j + 1 < length path \<and> fmlookup ns (path ! j) = Some q
            \<and> x \<in> set (children q) \<and> x \<noteq> path ! (j + 1))"
      using "1.IH" [OF True refl] by (simp add: m'_def)
    have split: "(\<exists>j q. i \<le> j \<and> j + 1 < length path \<and> fmlookup ns (path ! j) = Some q
            \<and> x \<in> set (children q) \<and> x \<noteq> path ! (j + 1))
      \<longleftrightarrow> (\<exists>q. fmlookup ns (path ! i) = Some q \<and> x \<in> set (children q) \<and> x \<noteq> path ! (i + 1))
        \<or> (\<exists>j q. i + 1 \<le> j \<and> j + 1 < length path \<and> fmlookup ns (path ! j) = Some q
            \<and> x \<in> set (children q) \<and> x \<noteq> path ! (j + 1))"
      (is "?L \<longleftrightarrow> ?A \<or> ?B")
    proof
      assume ?L
      then obtain j q where j: "i \<le> j" "j + 1 < length path" "fmlookup ns (path ! j) = Some q"
        "x \<in> set (children q)" "x \<noteq> path ! (j + 1)" by blast
      show "?A \<or> ?B"
      proof (cases "j = i")
        case True
        with j show ?thesis by blast
      next
        case False
        with j(1) have "i + 1 \<le> j" by simp
        with j show ?thesis by blast
      qed
    next
      assume "?A \<or> ?B"
      then show ?L
      proof
        assume ?A
        with True show ?L by blast
      next
        assume ?B
        then obtain j q where "i + 1 \<le> j" "j + 1 < length path" "fmlookup ns (path ! j) = Some q"
        "x \<in> set (children q)" "x \<noteq> path ! (j + 1)" by blast
        moreover from this have "i \<le> j" by simp
        ultimately show ?L by blast
      qed
    qed
    show ?thesis unfolding unfold ih step split by blast
  qed
qed

lemma focus_is_collapsed:
  "is_collapsed (collapseAllOtherNodes st) x \<longleftrightarrow>
     x \<noteq> activeId st \<and> x \<noteq> ROOT_ID
   \<and> ((\<exists>a. fmlookup (nodes st) (activeId st) = Some a \<and> x \<in> set (children a))
      \<or> (\<exists>j q. j + 1 < length (ROOT_ID # rev (up_loop (nodes st) [] [] (Some (activeId st))))
              \<and> fmlookup (nodes st)
                   ((ROOT_ID # rev (up_loop (nodes st) [] [] (Some (activeId st)))) ! j) = Some q
              \<and> x \<in> set (children q)
              \<and> x \<noteq> (ROOT_ID # rev (up_loop (nodes st) [] [] (Some (activeId st)))) ! (j + 1)))"
proof -
  define path where "path = ROOT_ID # rev (up_loop (nodes st) [] [] (Some (activeId st)))"
  define sibs where "sibs = collapse_path_loop (nodes st) path 0 fmempty"
  define wa where "wa = (case fmlookup (nodes st) (activeId st) of
               None \<Rightarrow> sibs
             | Some active \<Rightarrow> mark_children (\<lambda>c. True) (children active) sibs)"
  have c: "collapsed_or_empty (collapseAllOtherNodes st) = fmdrop (activeId st) (fmdrop ROOT_ID wa)"
    by (simp add: collapseAllOtherNodes_def collapsed_or_empty_def Let_def wa_def sibs_def path_def
        cong: option.case_cong)
  have s: "fmlookup sibs x = Some True \<longleftrightarrow>
      (\<exists>j q. j + 1 < length path \<and> fmlookup (nodes st) (path ! j) = Some q
            \<and> x \<in> set (children q) \<and> x \<noteq> path ! (j + 1))"
    unfolding sibs_def collapse_path_loop_marked by simp
  have w: "fmlookup wa x = Some True \<longleftrightarrow>
      (\<exists>a. fmlookup (nodes st) (activeId st) = Some a \<and> x \<in> set (children a))
      \<or> fmlookup sibs x = Some True"
    by (auto simp: wa_def mark_children_lookup split: option.splits)
  have "is_collapsed (collapseAllOtherNodes st) x \<longleftrightarrow>
      x \<noteq> activeId st \<and> x \<noteq> ROOT_ID \<and> fmlookup wa x = Some True"
    by (auto simp: is_collapsed_def c)
  then show ?thesis unfolding w s path_def by blast
qed


subsection \<open>The path from the root to the active node\<close>

lemma focus_path_eq:
  assumes "wf_tree st" and "fmlookup (nodes st) (activeId st) = Some a"
  shows "ROOT_ID # rev (up_loop (nodes st) [] [] (Some (activeId st))) = path_ids st"
  using up_loop_chain [OF assms refl, of "[]" "[]"] path_ids_chain [OF assms] by simp

lemma path_ids_length:
  assumes "wf_tree st" and "fmlookup (nodes st) (activeId st) = Some a"
  shows "length (path_ids st) = depth a + 1"
  using anc_chain_depths [OF assms refl] path_ids_chain [OF assms] by simp

lemma path_ids_nth_depth:
  assumes wf: "wf_tree st" and a: "fmlookup (nodes st) (activeId st) = Some a"
    and j: "j \<le> depth a"
  shows "\<exists>m. fmlookup (nodes st) (path_ids st ! j) = Some m \<and> depth m = j"
proof (cases j)
  case 0
  with wf_rootD [OF wf] path_ids_chain [OF wf a] show ?thesis by simp
next
  case (Suc j')
  let ?ch = "anc_chain (depth a) (nodes st) (activeId st)"
  from anc_chain_depths [OF wf a refl] have len: "length ?ch = depth a"
    and dp: "\<forall>k<depth a. \<exists>m. fmlookup (nodes st) (?ch ! k) = Some m \<and> depth m = depth a - k"
    by auto
  from Suc j have j': "j' < length ?ch" using len by simp
  have "path_ids st ! j = rev ?ch ! j'"
    using path_ids_chain [OF wf a] Suc by simp
  also have "\<dots> = ?ch ! (depth a - Suc j')"
    using j' len by (simp add: rev_nth)
  finally have eq: "path_ids st ! j = ?ch ! (depth a - Suc j')" .
  from Suc j have "depth a - Suc j' < depth a" by simp
  with dp obtain m where "fmlookup (nodes st) (?ch ! (depth a - Suc j')) = Some m"
    "depth m = depth a - (depth a - Suc j')" by blast
  with eq Suc j show ?thesis by simp
qed

lemma path_ids_last:
  assumes wf: "wf_tree st" and a: "fmlookup (nodes st) (activeId st) = Some a"
  shows "activeId st \<in> set (path_ids st)"
proof (cases "depth a")
  case 0
  from wf_depth0_root [OF wf a 0] path_ids_chain [OF wf a] show ?thesis by simp
next
  case (Suc d)
  from wf_step_up [OF wf a Suc] have "activeId st \<noteq> ROOT_ID" by blast
  with a Suc path_ids_chain [OF wf a] show ?thesis by simp
qed

lemma path_ids_root: "ROOT_ID \<in> set (path_ids st)"
  by (simp add: path_ids_def)

lemma path_ids_closed:
  assumes wf: "wf_tree st" and a: "fmlookup (nodes st) (activeId st) = Some a"
    and x: "x \<in> set (path_ids st)" and nr: "x \<noteq> ROOT_ID"
  shows "\<exists>m. fmlookup (nodes st) x = Some m \<and> parentId m \<in> set (path_ids st)"
proof -
  from x nr path_ids_chain [OF wf a]
  have "x \<in> set (anc_chain (depth a) (nodes st) (activeId st))" by simp
  from anc_chain_parent [OF wf a refl this] path_ids_chain [OF wf a]
  show ?thesis by auto
qed

lemma path_ids_in_set_depth:
  assumes wf: "wf_tree st" and a: "fmlookup (nodes st) (activeId st) = Some a"
    and x: "x \<in> set (path_ids st)"
  shows "\<exists>j m. j \<le> depth a \<and> x = path_ids st ! j \<and> fmlookup (nodes st) x = Some m \<and> depth m = j"
proof -
  from x obtain j where j: "j < length (path_ids st)" "x = path_ids st ! j"
    by (auto simp: in_set_conv_nth)
  with path_ids_length [OF wf a] have "j \<le> depth a" by simp
  with path_ids_nth_depth [OF wf a this] j show ?thesis by blast
qed

lemma path_ids_depth_unique:
  assumes wf: "wf_tree st" and a: "fmlookup (nodes st) (activeId st) = Some a"
    and x: "x \<in> set (path_ids st)" and m: "fmlookup (nodes st) x = Some m"
  shows "depth m \<le> depth a \<and> x = path_ids st ! depth m"
  using path_ids_in_set_depth [OF wf a x] m by auto

lemma focus_collapsed_char:
  assumes wf: "wf_tree st" and a: "fmlookup (nodes st) (activeId st) = Some a"
  shows "is_collapsed (collapseAllOtherNodes st) x \<longleftrightarrow>
           x \<notin> set (path_ids st)
         \<and> (\<exists>k q. k \<in> set (path_ids st) \<and> fmlookup (nodes st) k = Some q \<and> x \<in> set (children q))"
    (is "?L \<longleftrightarrow> ?R")
proof
  assume ?L
  then have ne: "x \<noteq> activeId st" "x \<noteq> ROOT_ID"
    and cases: "x \<in> set (children a)
      \<or> (\<exists>j q. j + 1 < length (path_ids st) \<and> fmlookup (nodes st) (path_ids st ! j) = Some q
              \<and> x \<in> set (children q) \<and> x \<noteq> path_ids st ! (j + 1))"
    unfolding focus_is_collapsed focus_path_eq [OF wf a] using a by auto
  from cases show ?R
  proof
    assume xa: "x \<in> set (children a)"
    from wf_child_depth [OF wf a xa] obtain m where
      m: "fmlookup (nodes st) x = Some m" "depth m = depth a + 1" by blast
    have "x \<notin> set (path_ids st)"
    proof
      assume "x \<in> set (path_ids st)"
      from path_ids_depth_unique [OF wf a this m(1)] m(2) show False by simp
    qed
    with path_ids_last [OF wf a] a xa show ?R by blast
  next
    assume "\<exists>j q. j + 1 < length (path_ids st) \<and> fmlookup (nodes st) (path_ids st ! j) = Some q
              \<and> x \<in> set (children q) \<and> x \<noteq> path_ids st ! (j + 1)"
    then obtain j q where j: "j + 1 < length (path_ids st)"
      and q: "fmlookup (nodes st) (path_ids st ! j) = Some q"
      and xq: "x \<in> set (children q)" and nx: "x \<noteq> path_ids st ! (j + 1)" by blast
    from j path_ids_length [OF wf a] have jd: "j \<le> depth a" by simp
    from path_ids_nth_depth [OF wf a jd] q have dq: "depth q = j" by auto
    from wf_child_depth [OF wf q xq] dq obtain m where
      m: "fmlookup (nodes st) x = Some m" "depth m = j + 1" by auto
    have "x \<notin> set (path_ids st)"
    proof
      assume "x \<in> set (path_ids st)"
      from path_ids_depth_unique [OF wf a this m(1)] m(2) nx show False by simp
    qed
    moreover from j have "path_ids st ! j \<in> set (path_ids st)" by simp
    ultimately show ?R using q xq by blast
  qed
next
  assume ?R
  then obtain k q where nx: "x \<notin> set (path_ids st)" and k: "k \<in> set (path_ids st)"
    and q: "fmlookup (nodes st) k = Some q" and xq: "x \<in> set (children q)" by blast
  from nx path_ids_root path_ids_last [OF wf a] have ne: "x \<noteq> ROOT_ID" "x \<noteq> activeId st"
    by auto
  from path_ids_depth_unique [OF wf a k q] have dq: "depth q \<le> depth a" "k = path_ids st ! depth q"
    by auto
  show ?L
  proof (cases "depth q = depth a")
    case True
    from path_ids_last [OF wf a] path_ids_depth_unique [OF wf a _ a]
    have "activeId st = path_ids st ! depth a" by blast
    with True dq(2) have "k = activeId st" by simp
    with q a xq ne show ?thesis
      unfolding focus_is_collapsed by auto
  next
    case False
    with dq(1) have lt: "depth q + 1 < length (path_ids st)"
      using path_ids_length [OF wf a] by simp
    then have "path_ids st ! (depth q + 1) \<in> set (path_ids st)" by (intro nth_mem)
    with nx have "x \<noteq> path_ids st ! (depth q + 1)" by auto
    with lt q dq(2) xq ne show ?thesis
      unfolding focus_is_collapsed focus_path_eq [OF wf a] by blast
  qed
qed

subsection \<open>Which nodes are hidden after focusing\<close>

lemma wf_tree_nodes_cong: "nodes st' = nodes st \<Longrightarrow> wf_tree st' = wf_tree st"
  by (simp add: wf_tree_def)

lemma focus_nodes [simp]: "nodes (collapseAllOtherNodes st) = nodes st"
  by (simp add: collapseAllOtherNodes_def Let_def)

lemma focus_activeId [simp]: "activeId (collapseAllOtherNodes st) = activeId st"
  by (simp add: collapseAllOtherNodes_def Let_def)

lemma hidden_after_focus_loop:
  assumes wf: "wf_tree st" and a: "fmlookup (nodes st) (activeId st) = Some a"
  shows "fmlookup (nodes st) y = Some n \<Longrightarrow> depth n = d \<Longrightarrow> deeper_than st d g \<Longrightarrow>
         isHidden_loop (collapseAllOtherNodes st) g y
           \<longleftrightarrow> y \<noteq> ROOT_ID \<and> parentId n \<notin> set (path_ids st)"
proof (induction d arbitrary: y n g)
  case 0
  from wf_depth0_root [OF wf "0.prems"(1,2)] show ?case
    by (subst isHidden_loop.simps) simp
next
  case (Suc d)
  let ?P = "set (path_ids st)"
  let ?st' = "collapseAllOtherNodes st"
  from wf_step_up [OF wf Suc.prems(1,2)] obtain p where
    nr: "y \<noteq> ROOT_ID" "y \<noteq> []" "parentId n \<noteq> []"
    and p: "fmlookup (nodes st) (parentId n) = Some p" "depth p = d"
    by blast
  from deeper_than_notin [OF Suc.prems(3,1,2)] have ng: "y \<notin> set g" .
  from deeper_than_Cons [OF Suc.prems(3,1,2)] have dt: "deeper_than st d (y # g)" .
  note ih = Suc.IH [OF p dt]
  show ?case
  proof (cases "is_collapsed ?st' (parentId n)")
    case True
    then have "isHidden_loop ?st' g y"
      using nr ng Suc.prems(1) by (subst isHidden_loop.simps) simp
    moreover from True have "parentId n \<notin> ?P"
      unfolding focus_collapsed_char [OF wf a] by simp
    ultimately show ?thesis using nr by simp
  next
    case False
    then have "isHidden_loop ?st' g y = isHidden_loop ?st' (y # g) (parentId n)"
      using nr ng Suc.prems(1) by (subst isHidden_loop.simps) simp
    also have "\<dots> \<longleftrightarrow> parentId n \<noteq> ROOT_ID \<and> parentId p \<notin> ?P" by (rule ih)
    also have "\<dots> \<longleftrightarrow> parentId n \<notin> ?P"
    proof
      assume h: "parentId n \<noteq> ROOT_ID \<and> parentId p \<notin> ?P"
      show "parentId n \<notin> ?P"
      proof
        assume "parentId n \<in> ?P"
        from path_ids_closed [OF wf a this] h p(1) show False by auto
      qed
    next
      assume np: "parentId n \<notin> ?P"
      with path_ids_root have r: "parentId n \<noteq> ROOT_ID" by auto
      from wf_parentD [OF wf p(1) r] obtain q where
        q: "fmlookup (nodes st) (parentId p) = Some q" "parentId n \<in> set (children q)" by blast
      have "parentId p \<notin> ?P"
      proof
        assume "parentId p \<in> ?P"
        with np q have "is_collapsed ?st' (parentId n)"
          unfolding focus_collapsed_char [OF wf a] by blast
        with False show False by simp
      qed
      with r show "parentId n \<noteq> ROOT_ID \<and> parentId p \<notin> ?P" by simp
    qed
    finally show ?thesis using nr by simp
  qed
qed

lemma hidden_after_focus:
  assumes "wf_tree st" and "fmlookup (nodes st) (activeId st) = Some a"
    and "fmlookup (nodes st) y = Some n" and "y \<noteq> ROOT_ID"
  shows "isHiddenByCollapsed (collapseAllOtherNodes st) y \<longleftrightarrow> parentId n \<notin> set (path_ids st)"
  using hidden_after_focus_loop [OF assms(1-3) refl, of "[]"] assms(4)
  by (simp add: isHiddenByCollapsed_def)


subsection \<open>The flat listing\<close>

lemma those_map_map_option:
  "those (map (\<lambda>x. map_option f (g x)) xs) = map_option (map f) (those (map g xs))"
proof (induction xs)
  case Nil
  show ?case by simp
next
  case (Cons x xs)
  show ?case
    by (cases "g x"; cases "those (map g xs)") (simp_all add: Cons.IH)
qed

lemma collect_dfs_nodes_cong:
  "nodes st' = nodes st \<Longrightarrow> collect_dfs fuel st' i = collect_dfs fuel st i"
proof (induction fuel arbitrary: i)
  case 0
  show ?case by simp
next
  case (Suc fuel)
  then have "collect_dfs fuel st' = collect_dfs fuel st" by (intro ext) simp
  with Suc.prems show ?case by (simp cong: looked_up.case_cong)
qed

lemma flatten_dfs_collect:
  assumes wf: "wf_tree st"
  shows "fmlookup (nodes st) i \<noteq> None \<Longrightarrow>
    flatten_dfs fuel st i
     = map_option (\<lambda>ids. map (\<lambda>k. the (fmlookup (nodes st) k)) (filter (\<lambda>k. k \<noteq> ROOT_ID) ids))
         (collect_dfs fuel st i)"
proof (induction fuel arbitrary: i)
  case 0
  show ?case by simp
next
  case (Suc fuel)
  let ?F = "\<lambda>ids. map (\<lambda>k. the (fmlookup (nodes st) k)) (filter (\<lambda>k. k \<noteq> ROOT_ID) ids)"
  show ?case
  proof (cases "fmlookup (nodes st) i")
    case None
    with Suc.prems show ?thesis by simp
  next
    case (Some n)
    have "flatten_dfs fuel st c = map_option ?F (collect_dfs fuel st c)"
      if "c \<in> set (children n)" for c
    proof -
      from wf_childD [OF wf Some that] have "fmlookup (nodes st) c \<noteq> None" by auto
      then show ?thesis by (rule Suc.IH)
    qed
    then have "map (flatten_dfs fuel st) (children n)
            = map (\<lambda>c. map_option ?F (collect_dfs fuel st c)) (children n)"
      by simp
    then have "those (map (flatten_dfs fuel st) (children n))
            = map_option (map ?F) (those (map (collect_dfs fuel st) (children n)))"
      by (simp only: those_map_map_option)
    moreover have "?F (concat rs) = concat (map ?F rs)" for rs
      by (induction rs) simp_all
    ultimately show ?thesis using Some
      by (cases "those (map (collect_dfs fuel st) (children n))") auto
  qed
qed

lemma flattenTree_collect:
  assumes wf: "wf_tree st" and n: "nodes st' = nodes st"
  shows "flattenTree fuel st'
     = map_option (\<lambda>ids. map (\<lambda>k. the (fmlookup (nodes st) k)) (filter (\<lambda>k. k \<noteq> ROOT_ID) ids))
         (collect_dfs fuel st' ROOT_ID)"
proof -
  from wf wf_tree_nodes_cong [OF n] have wf': "wf_tree st'" by simp
  from wf_rootD [OF wf'] have r: "fmlookup (nodes st') ROOT_ID \<noteq> None" by auto
  from flatten_dfs_collect [OF wf' r, of fuel] n show ?thesis
    by (simp add: flattenTree_def)
qed

lemma collect_dfs_head:
  "collect_dfs fuel st c = Some r \<Longrightarrow> fmlookup (nodes st) c = Some m \<Longrightarrow> c \<in> set r"
  by (cases fuel) auto

lemma collect_dfs_closed:
  "collect_dfs fuel st i = Some xs \<Longrightarrow> q \<in> set xs \<Longrightarrow> fmlookup (nodes st) q = Some n \<Longrightarrow>
   c \<in> set (children n) \<Longrightarrow> fmlookup (nodes st) c = Some m \<Longrightarrow> c \<in> set xs"
proof (induction fuel arbitrary: i xs)
  case 0
  then show ?case by simp
next
  case (Suc fuel)
  show ?case
  proof (cases "fmlookup (nodes st) i")
    case None
    with Suc.prems show ?thesis by (auto simp: table_get_None split: if_splits)
  next
    case (Some ni)
    with Suc.prems(1) obtain rs where
      rs: "those (map (collect_dfs fuel st) (children ni)) = Some rs" and xs: "xs = i # concat rs"
      by auto
    from rs have all: "list_all2 (\<lambda>c r. collect_dfs fuel st c = Some r) (children ni) rs"
      by (simp add: those_map_Some_iff)
    show ?thesis
    proof (cases "q = i")
      case True
      with Some Suc.prems(3,4) have "c \<in> set (children ni)" by simp
      from list_all2_leftD [OF all this] obtain r where
        r: "r \<in> set rs" "collect_dfs fuel st c = Some r" by blast
      from collect_dfs_head [OF r(2) Suc.prems(5)] r(1) xs show ?thesis by auto
    next
      case False
      with Suc.prems(2) xs obtain r where r: "r \<in> set rs" "q \<in> set r" by auto
      from list_all2_rightD [OF all r(1)] obtain c' where
        "collect_dfs fuel st c' = Some r" by blast
      from Suc.IH [OF this r(2) Suc.prems(3,4,5)] r(1) xs show ?thesis by auto
    qed
  qed
qed

lemma collect_dfs_root_complete:
  assumes wf: "wf_tree st" and c: "collect_dfs fuel st ROOT_ID = Some xs"
  shows "fmlookup (nodes st) x = Some m \<Longrightarrow> depth m = d \<Longrightarrow> x \<in> set xs"
proof (induction d arbitrary: x m)
  case 0
  from wf_depth0_root [OF wf "0.prems"] collect_dfs_head [OF c] "0.prems"(1) show ?case by simp
next
  case (Suc d)
  from wf_step_up [OF wf Suc.prems] obtain p where
    p: "fmlookup (nodes st) (parentId m) = Some p" "depth p = d" "x \<in> set (children p)"
    by blast
  from Suc.IH [OF p(1,2)] have "parentId m \<in> set xs" .
  from collect_dfs_closed [OF c this p(1) p(3) Suc.prems(1)] show ?case .
qed

lemma collect_dfs_root_set:
  assumes wf: "wf_tree st" and c: "collect_dfs fuel st ROOT_ID = Some xs"
  shows "set xs = fmdom' (nodes st)"
proof
  from wf_rootD [OF wf] have rn: "fmlookup (nodes st) ROOT_ID \<noteq> None" by auto
  show "set xs \<subseteq> fmdom' (nodes st)"
  proof
    fix x assume "x \<in> set xs"
    from collect_dfs_deeper [OF wf c this rn] show "x \<in> fmdom' (nodes st)"
      by (auto intro: fmdom'I)
  qed
  show "fmdom' (nodes st) \<subseteq> set xs"
    using collect_dfs_root_complete [OF wf c] by (auto simp: fmlookup_dom'_iff)
qed


lemma flatNodes_after_focus:
  assumes wf: "wf_tree st" and a: "fmlookup (nodes st) (activeId st) = Some a"
    and c: "collect_dfs fuel st ROOT_ID = Some ids"
  shows "\<exists>xs. flatNodes fuel (collapseAllOtherNodes st) = Some xs
            \<and> set xs = {n \<in> fmran' (nodes st).
                         node_id n \<noteq> ROOT_ID \<and> parentId n \<in> set (path_ids st)}"
proof -
  let ?st' = "collapseAllOtherNodes st"
  let ?xs = "filter (\<lambda>n. \<not> isHiddenByCollapsed ?st' (node_id n))
               (map (\<lambda>k. the (fmlookup (nodes st) k)) (filter (\<lambda>k. k \<noteq> ROOT_ID) ids))"
  have "collect_dfs fuel ?st' ROOT_ID = Some ids"
    using c by (simp add: collect_dfs_nodes_cong [of ?st' st])
  then have f: "flatNodes fuel ?st' = Some ?xs"
    by (simp add: flatNodes_def flattenTree_collect [OF wf focus_nodes])
  have ids: "set ids = fmdom' (nodes st)" by (rule collect_dfs_root_set [OF wf c])
  have "set ?xs = {n \<in> fmran' (nodes st).
                         node_id n \<noteq> ROOT_ID \<and> parentId n \<in> set (path_ids st)}"
  proof (intro set_eqI iffI)
    fix n assume "n \<in> set ?xs"
    then obtain k where k: "k \<in> set ids" "k \<noteq> ROOT_ID" "n = the (fmlookup (nodes st) k)"
      and h: "\<not> isHiddenByCollapsed ?st' (node_id n)" by auto
    from k(1) ids obtain m where m: "fmlookup (nodes st) k = Some m"
      by (auto simp: fmlookup_dom'_iff)
    with k(3) have nm: "n = m" by simp
    from wf_idD [OF wf m] nm have id: "node_id n = k" by simp
    from hidden_after_focus [OF wf a m k(2)] h id nm have "parentId n \<in> set (path_ids st)"
      by simp
    with m nm id k(2) show "n \<in> {n \<in> fmran' (nodes st).
                         node_id n \<noteq> ROOT_ID \<and> parentId n \<in> set (path_ids st)}"
      by (auto intro: fmran'I)
  next
    fix n assume "n \<in> {n \<in> fmran' (nodes st).
                         node_id n \<noteq> ROOT_ID \<and> parentId n \<in> set (path_ids st)}"
    then obtain k where k: "fmlookup (nodes st) k = Some n"
      and nr: "node_id n \<noteq> ROOT_ID" and p: "parentId n \<in> set (path_ids st)"
      by (auto simp: fmran'_def)
    from wf_idD [OF wf k] have id: "node_id n = k" .
    from k ids have "k \<in> set ids" by (auto intro: fmdom'I)
    moreover from hidden_after_focus [OF wf a k] nr id p
    have "\<not> isHiddenByCollapsed ?st' (node_id n)" by simp
    ultimately show "n \<in> set ?xs" using k nr id by force
  qed
  with f show ?thesis by blast
qed

lemma two_branches_active:
  "fmlookup (nodes two_branches) (activeId two_branches) \<noteq> None"
  by (simp add: two_branches_def)

lemma pathToRoot_loop_in_table:
  "n \<in> set (pathToRoot_loop st g out c) \<Longrightarrow>
   n \<in> set out \<or> (\<exists>k. fmlookup (nodes st) k = Some n)"
proof (induction st g out c rule: pathToRoot_loop.induct)
  case (1 st guard out curId)
  show ?case
  proof (cases "curId \<noteq> [] \<and> curId \<noteq> ROOT_ID \<and> curId \<notin> set guard")
    case False
    with "1.prems" show ?thesis by (subst (asm) pathToRoot_loop.simps) auto
  next
    case go: True
    show ?thesis
    proof (cases "fmlookup (nodes st) curId")
      case None
      with go "1.prems" show ?thesis by (subst (asm) pathToRoot_loop.simps) simp
    next
      case (Some cur)
      with go "1.prems" have "n \<in> set (pathToRoot_loop st (curId # guard) (out @ [cur]) (parentId cur))"
        by (subst (asm) pathToRoot_loop.simps) simp
      from "1.IH" [OF go Some this] Some show ?thesis by auto
    qed
  qed
qed

lemma pathToRoot_listed:
  assumes wf: "wf_tree st" and a: "fmlookup (nodes st) (activeId st) = Some a"
    and n: "n \<in> set (pathToRoot st)"
  shows "n \<in> fmran' (nodes st) \<and> node_id n \<noteq> ROOT_ID \<and> parentId n \<in> set (path_ids st)"
proof -
  from n have "n \<in> set (pathToRoot_loop st [] [] (activeId st))" by (simp add: pathToRoot_def)
  from pathToRoot_loop_in_table [OF this] obtain k where k: "fmlookup (nodes st) k = Some n"
    by auto
  from wf_idD [OF wf k] have id: "node_id n = k" .
  from path_ids_chain [OF wf a]
  have "map node_id (pathToRoot st) = rev (anc_chain (depth a) (nodes st) (activeId st))"
    by (simp add: path_ids_def)
  then have "set (map node_id (pathToRoot st)) = set (anc_chain (depth a) (nodes st) (activeId st))"
    by (metis set_rev)
  with n have "node_id n \<in> set (anc_chain (depth a) (nodes st) (activeId st))"
    by auto
  from anc_chain_parent [OF wf a refl this] k id path_ids_chain [OF wf a]
  show ?thesis by (auto intro: fmran'I)
qed

subsection \<open>Focusing on the active node\<close>

text \<open>
  C4. Focus visibility. In a well-formed tree whose active id resolves to a node, after
  \<open>collapseAllOtherNodes\<close> the listing of \<open>flattenTree\<close> without the hidden nodes consists
  exactly of the nodes other than the root whose parent is the root or a node of the
  root-to-active path. These are the nodes of the path and the direct children of the
  active node, which are all listed, and also the siblings of the path nodes, which are
  marked collapsed but are themselves listed; every other node is hidden. The listing is
  returned for every recursion bound above the depth of the tree. The node table and the
  active id are not altered.
\<close>

theorem focus_visibility:
  assumes "wf_tree st" and "fmlookup (nodes st) (activeId st) \<noteq> None"
  shows "\<exists>xs. (\<forall>fuel. max_depth st < fuel \<longrightarrow>
                 flatNodes fuel (collapseAllOtherNodes st) = Some xs)
           \<and> set xs = {n \<in> fmran' (nodes st).
                        node_id n \<noteq> ROOT_ID \<and> parentId n \<in> set (path_ids st)}
           \<and> set (pathToRoot st) \<subseteq> set xs
           \<and> {n \<in> fmran' (nodes st).
                 node_id n \<noteq> ROOT_ID \<and> parentId n = activeId st} \<subseteq> set xs
           \<and> nodes (collapseAllOtherNodes st) = nodes st
           \<and> activeId (collapseAllOtherNodes st) = activeId st"
proof -
  from assms(2) obtain a where a: "fmlookup (nodes st) (activeId st) = Some a" by auto
  let ?f0 = "Suc (max_depth st)"
  from collect_dfs_total [OF assms(1), of ?f0 ROOT_ID] obtain ids where
    c0: "collect_dfs ?f0 st ROOT_ID = Some ids" by auto
  from flatNodes_after_focus [OF assms(1) a c0] obtain xs where
    xs: "flatNodes ?f0 (collapseAllOtherNodes st) = Some xs"
    and set: "set xs = {n \<in> fmran' (nodes st).
                        node_id n \<noteq> ROOT_ID \<and> parentId n \<in> set (path_ids st)}"
    by blast
  have every: "flatNodes fuel (collapseAllOtherNodes st) = Some xs" if "max_depth st < fuel" for fuel
  proof -
    from that have "?f0 \<le> fuel" by simp
    from collect_dfs_mono [OF c0 this] have c: "collect_dfs fuel st ROOT_ID = Some ids" .
    have eq: "collect_dfs f (collapseAllOtherNodes st) ROOT_ID = collect_dfs f st ROOT_ID" for f
      by (rule collect_dfs_nodes_cong) simp
    have "collect_dfs fuel (collapseAllOtherNodes st) ROOT_ID = Some ids"
      "collect_dfs ?f0 (collapseAllOtherNodes st) ROOT_ID = Some ids"
      unfolding eq using c c0 by blast+
    then have "flatNodes fuel (collapseAllOtherNodes st) = flatNodes ?f0 (collapseAllOtherNodes st)"
      by (simp only: flatNodes_def flattenTree_collect [OF assms(1) focus_nodes])
    with xs show ?thesis by simp
  qed
  have A: "\<forall>fuel. max_depth st < fuel \<longrightarrow>
                 flatNodes fuel (collapseAllOtherNodes st) = Some xs"
    using every by blast
  have B: "set (pathToRoot st) \<subseteq> set xs"
  proof
    fix n assume "n \<in> set (pathToRoot st)"
    from pathToRoot_listed [OF assms(1) a this] show "n \<in> set xs"
      unfolding set by blast
  qed
  have C: "{n \<in> fmran' (nodes st).
                 node_id n \<noteq> ROOT_ID \<and> parentId n = activeId st} \<subseteq> set xs"
  proof
    fix n assume "n \<in> {n \<in> fmran' (nodes st).
                 node_id n \<noteq> ROOT_ID \<and> parentId n = activeId st}"
    then have "n \<in> fmran' (nodes st)" "node_id n \<noteq> ROOT_ID" "parentId n = activeId st"
      by blast+
    with path_ids_last [OF assms(1) a] show "n \<in> set xs"
      unfolding set by simp
  qed
  have D: "nodes (collapseAllOtherNodes st) = nodes st"
    and E: "activeId (collapseAllOtherNodes st) = activeId st"
    by (rule focus_nodes, rule focus_activeId)
  from A set B C D E show ?thesis by (intro exI [of _ xs] conjI)
qed

theorem focus_visibility_witness:
  "\<exists>xs. flatNodes (Suc (max_depth two_branches)) (collapseAllOtherNodes two_branches) = Some xs
       \<and> nodes (collapseAllOtherNodes two_branches) = nodes two_branches"
  using focus_visibility [OF wf_two two_branches_active] by blast

text \<open>
  In \<open>two_branches\<close> the path to the active node is \<open>n_1_b\<close> alone and the active node has
  no children, yet after focusing the listing also shows \<open>n_0_a\<close>, the sibling of the
  active node.
\<close>

theorem focus_lists_siblings_counterexample:
  "wf_tree two_branches
   \<and> activeId two_branches = ''n_1_b''
   \<and> map node_id (pathToRoot two_branches) = [''n_1_b'']
   \<and> map_option children (fmlookup (nodes two_branches) ''n_1_b'') = Some []
   \<and> map_option (map node_id) (flatNodes 2 (collapseAllOtherNodes two_branches))
       = Some [''n_0_a'', ''n_1_b'']"
proof -
  have 1: "activeId two_branches = ''n_1_b''" by (simp add: two_branches_def)
  have 2: "map node_id (pathToRoot two_branches) = [''n_1_b'']"
    by (simp add: pathToRoot_def pathToRoot_loop.simps two_branches_def leaf_def ROOT_ID_def)
  have 3: "map_option children (fmlookup (nodes two_branches) ''n_1_b'') = Some []"
    by (simp add: two_branches_def leaf_def ROOT_ID_def)
  have up: "up_loop (nodes two_branches) [] [] (Some ''n_1_b'') = [''n_1_b'']"
    by (simp add: up_loop.simps two_branches_def leaf_def ROOT_ID_def)
  have c: "collapsedIds (collapseAllOtherNodes two_branches)
             = Some (fmdrop ''n_1_b'' (fmdrop ROOT_ID (fmupd ''n_0_a'' True fmempty)))"
    by (simp add: collapseAllOtherNodes_def Let_def 1 up)
       (simp add: two_branches_def leaf_def ROOT_ID_def root_node_def collapse_path_loop.simps
        mark_children_def)
  have ic: "\<not> is_collapsed (collapseAllOtherNodes two_branches) ROOT_ID"
    by (simp add: is_collapsed_def collapsed_or_empty_def c)
  have stop: "\<not> isHidden_loop (collapseAllOtherNodes two_branches) g ROOT_ID" for g
    by (subst isHidden_loop.simps) simp
  have ne: "''n_0_a'' \<noteq> ROOT_ID" "''n_1_b'' \<noteq> ROOT_ID" "ROOT_ID \<noteq> []"
    by (simp_all add: ROOT_ID_def)
  have l: "fmlookup (nodes two_branches) ''n_0_a'' = Some (leaf ''n_0_a'' ROOT_ID 1 0 [])"
    "fmlookup (nodes two_branches) ''n_1_b'' = Some (leaf ''n_1_b'' ROOT_ID 1 1 [])"
    by (simp_all add: two_branches_def ROOT_ID_def)
  have pl: "parentId (leaf i p d k cs) = p" for i p d k cs by (simp add: leaf_def)
  have h: "\<not> isHiddenByCollapsed (collapseAllOtherNodes two_branches) ''n_0_a''"
    "\<not> isHiddenByCollapsed (collapseAllOtherNodes two_branches) ''n_1_b''"
    unfolding isHiddenByCollapsed_def
    by (subst isHidden_loop.simps, simp add: l pl ne ic stop)+
  have f: "flattenTree 2 (collapseAllOtherNodes two_branches)
             = Some [leaf ''n_0_a'' ROOT_ID 1 0 [], leaf ''n_1_b'' ROOT_ID 1 1 []]"
    by (simp add: flattenTree_def numeral_2_eq_2)
       (simp add: two_branches_def leaf_def ROOT_ID_def root_node_def)
  have 4: "map_option (map node_id) (flatNodes 2 (collapseAllOtherNodes two_branches))
       = Some [''n_0_a'', ''n_1_b'']"
    using h by (simp add: flatNodes_def f) (simp add: leaf_def)
  from wf_two 1 2 3 4 show ?thesis by simp
qed

end
